theory Spec2Isabelle
  imports Main "HOL-Library.Sublist"
begin

section \<open>JavaScript strings\<close>

text \<open>
  A JavaScript string is a sequence of UTF-16 code units. A code unit is modelled by its
  number, a string by the list of its code units. The literals of the source are ASCII and
  are written \<open>lit ''...''\<close>.
\<close>

type_synonym jsstring = "nat list"

abbreviation lit :: "string \<Rightarrow> jsstring" where
  "lit s \<equiv> map of_char s"

text \<open>
  \<open>String.prototype.trim\<close> removes WhiteSpace and LineTerminator code units from both
  ends; the regular expression class \<open>\s\<close> is the same set, \<open>\d\<close> is the ASCII digits.
\<close>

definition isSpace :: "nat \<Rightarrow> bool" where
  "isSpace c \<longleftrightarrow>
     c = 9 \<or> c = 10 \<or> c = 11 \<or> c = 12 \<or> c = 13 \<or> c = 32 \<or> c = 160 \<or> c = 5760 \<or>
     (8192 \<le> c \<and> c \<le> 8202) \<or> c = 8232 \<or> c = 8233 \<or> c = 8239 \<or> c = 8287 \<or>
     c = 12288 \<or> c = 65279"

definition isDigit :: "nat \<Rightarrow> bool" where
  "isDigit c \<longleftrightarrow> 48 \<le> c \<and> c \<le> 57"

definition trim :: "jsstring \<Rightarrow> jsstring" where
  "trim s = rev (dropWhile isSpace (rev (dropWhile isSpace s)))"

text \<open>
  \<open>hay.includes(needle)\<close>: the needle occurs as a contiguous run of the string. The name
  \<open>includes\<close> is a keyword of Isabelle.
\<close>

fun includesStr :: "jsstring \<Rightarrow> jsstring \<Rightarrow> bool" where
  "includesStr needle [] = (needle = [])"
| "includesStr needle (c # cs) = (prefix needle (c # cs) \<or> includesStr needle cs)"

text \<open>
  \<open>s.split(sep)\<close> for a separator of one code unit; the result is never empty
  (\<open>"".split("\n")\<close> is \<open>[""]\<close>). \<open>xs.join(sep)\<close> is its counterpart.
\<close>

fun split :: "nat \<Rightarrow> jsstring \<Rightarrow> jsstring list" where
  "split sep [] = [[]]"
| "split sep (c # cs) =
     (if c = sep then [] # split sep cs
      else (case split sep cs of [] \<Rightarrow> [[c]] | l # ls \<Rightarrow> (c # l) # ls))"

fun join :: "jsstring \<Rightarrow> jsstring list \<Rightarrow> jsstring" where
  "join sep [] = []"
| "join sep [x] = x"
| "join sep (x # y # ys) = x @ sep @ join sep (y # ys)"

definition nl :: nat where
  "nl = 10"

section \<open>The regular expressions of the caption normalizer\<close>

text \<open>
  The three regular expressions of \<open>stripVttNonContent\<close> are sequences of atoms: a digit
  \<open>\d\<close>, a literal code unit, or a greedy run of white space \<open>\s*\<close>. In the source every
  \<open>\s*\<close> is followed by an atom that is not white space, so the greedy run never has to
  give a code unit back. \<open>matchAtoms p s\<close> matches the pattern at the start of \<open>s\<close> and
  returns the rest of the string after the match.
\<close>

datatype atom = Digit | Chr nat | Spaces

fun matchAtoms :: "atom list \<Rightarrow> jsstring \<Rightarrow> jsstring option" where
  "matchAtoms [] s = Some s"
| "matchAtoms (Spaces # p) s = matchAtoms p (dropWhile isSpace s)"
| "matchAtoms (Digit # p) [] = None"
| "matchAtoms (Digit # p) (c # cs) = (if isDigit c then matchAtoms p cs else None)"
| "matchAtoms (Chr a # p) [] = None"
| "matchAtoms (Chr a # p) (c # cs) = (if c = a then matchAtoms p cs else None)"

abbreviation chrs :: "string \<Rightarrow> atom list" where
  "chrs s \<equiv> map (\<lambda>c. Chr (of_char c)) s"

text \<open>\<open>\d{2}:\d{2}:\d{2}\.\d{3}\<close>\<close>

definition timestampPat :: "atom list" where
  "timestampPat =
     [Digit, Digit] @ chrs '':'' @ [Digit, Digit] @ chrs '':'' @ [Digit, Digit] @
     chrs ''.'' @ [Digit, Digit, Digit]"

text \<open>\<open><\d{2}:\d{2}:\d{2}\.\d{3}>\<close>, \<open><\/c>\<close> and \<open><c>\<close>\<close>

definition timestampTag :: "atom list" where
  "timestampTag = chrs ''<'' @ timestampPat @ chrs ''>''"

definition closeTag :: "atom list" where
  "closeTag = chrs ''</c>''"

definition openTag :: "atom list" where
  "openTag = chrs ''<c>''"

text \<open>
  \<open>line.replace(/<\d{2}:\d{2}:\d{2}\.\d{3}>|<\/c>/g, "")\<close>: scanning from the left, a
  timestamp tag (14 code units) or a \<open></c>\<close> (4 code units) at the current position is
  skipped and the scan goes on behind it; any other code unit is kept.
\<close>

fun replaceTags :: "jsstring \<Rightarrow> jsstring" where
  "replaceTags [] = []"
| "replaceTags (c # cs) =
     (if matchAtoms timestampTag (c # cs) \<noteq> None then replaceTags (drop 13 cs)
      else if matchAtoms closeTag (c # cs) \<noteq> None then replaceTags (drop 3 cs)
      else c # replaceTags cs)"

text \<open>\<open>.replace(/<c>/g, "")\<close>\<close>

fun replaceOpen :: "jsstring \<Rightarrow> jsstring" where
  "replaceOpen [] = []"
| "replaceOpen (c # cs) =
     (if matchAtoms openTag (c # cs) \<noteq> None then replaceOpen (drop 2 cs)
      else c # replaceOpen cs)"

text \<open>
  \<open>line.match(/(\d{2}:\d{2}:\d{2}\.\d{3})\s*-->\s*(\d{2}:\d{2}:\d{2}\.\d{3})/)\<close>:
  \<open>timingAt\<close> matches at the start of the string and returns the two groups,
  \<open>timingMatch\<close> takes the leftmost position where the expression matches.
\<close>

definition timingAt :: "jsstring \<Rightarrow> (jsstring \<times> jsstring) option" where
  "timingAt s =
     (case matchAtoms timestampPat s of
        None \<Rightarrow> None
      | Some r1 \<Rightarrow>
          (case matchAtoms ([Spaces] @ chrs ''-->'' @ [Spaces]) r1 of
             None \<Rightarrow> None
           | Some r2 \<Rightarrow>
               (case matchAtoms timestampPat r2 of
                  None \<Rightarrow> None
                | Some r3 \<Rightarrow> Some (take 12 s, take 12 r2))))"

fun timingMatch :: "jsstring \<Rightarrow> (jsstring \<times> jsstring) option" where
  "timingMatch [] = None"
| "timingMatch (c # cs) =
     (case timingAt (c # cs) of Some m \<Rightarrow> Some m | None \<Rightarrow> timingMatch cs)"

section \<open>The caption normalizer\<close>

text \<open>
  The search for the end of the header: the first index \<open>i \<ge> 1\<close> of a blank line that is
  followed by a line containing the cue arrow gives \<open>headerEndIndex = i + 1\<close>; without
  one \<open>headerEndIndex\<close> keeps its initial value 1.
\<close>

function headerEndFrom :: "jsstring list \<Rightarrow> nat \<Rightarrow> nat" where
  "headerEndFrom lines i =
     (if i < length lines then
        (if trim (lines ! i) = [] \<and> i + 1 < length lines \<and>
            includesStr (lit ''-->'') (lines ! (i + 1))
         then i + 1
         else headerEndFrom lines (i + 1))
      else 1)"
  by pat_completeness auto
termination
  by (relation "measure (\<lambda>(lines, i). length lines - i)") auto

text \<open>The loop of the preserve-timing mode: each line pushes at most one line.\<close>

fun processedLines :: "jsstring list \<Rightarrow> jsstring list" where
  "processedLines [] = []"
| "processedLines (line # rest) =
     (if includesStr (lit ''-->'') line then
        (case timingMatch line of
           Some (t1, t2) \<Rightarrow> (t1 @ lit '' --> '' @ t2) # processedLines rest
         | None \<Rightarrow> processedLines rest)
      else if trim line \<noteq> [] \<and> \<not> includesStr (lit ''align:'') line \<and>
              \<not> includesStr (lit ''position:'') line then
        (let cleanedLine = trim (replaceOpen (replaceTags line))
         in if cleanedLine \<noteq> [] then cleanedLine # processedLines rest
            else processedLines rest)
      else processedLines rest)"

text \<open>The first loop of the discard-timing mode.\<close>

fun textLines :: "jsstring list \<Rightarrow> jsstring list" where
  "textLines [] = []"
| "textLines (line # rest) =
     (if includesStr (lit ''-->'') line then textLines rest
      else if includesStr (lit ''align:'') line \<or> includesStr (lit ''position:'') line
        then textLines rest
      else if trim line = [] then textLines rest
      else (let cleanedLine = replaceOpen (replaceTags line)
            in if trim cleanedLine \<noteq> [] then trim cleanedLine # textLines rest
               else textLines rest))"

text \<open>
  The second loop: \<open>textLines[i]\<close> is pushed when \<open>i = 0\<close> or it differs from
  \<open>textLines[i - 1]\<close>; \<open>uniqueAfter prev\<close> is the loop from index 1 on, with the previous
  element at hand.
\<close>

fun uniqueAfter :: "jsstring \<Rightarrow> jsstring list \<Rightarrow> jsstring list" where
  "uniqueAfter prev [] = []"
| "uniqueAfter prev (x # xs) =
     (if x \<noteq> prev then x # uniqueAfter x xs else uniqueAfter x xs)"

fun uniqueLines :: "jsstring list \<Rightarrow> jsstring list" where
  "uniqueLines [] = []"
| "uniqueLines (x # xs) = x # uniqueAfter x xs"

definition stripVttNonContent :: "jsstring \<Rightarrow> bool \<Rightarrow> jsstring" where
  "stripVttNonContent vttContent preserveTiming =
     (if vttContent = [] \<or> trim vttContent = [] then []
      else
        (let lines = split nl vttContent in
         if length lines < 2 \<or> \<not> includesStr (lit ''WEBVTT'') (lines ! 0) then []
         else
           (let contentLines = drop (headerEndFrom lines 1) lines in
            if preserveTiming then join [nl] (processedLines contentLines)
            else join [nl] (uniqueLines (textLines contentLines)))))"

section \<open>Classified failures (errors.ts)\<close>

text \<open>
  \<open>ErrorCodes\<close> is an enumeration of strings. A thrown value is a \<open>YouTubeMCPError\<close>
  (message, code, retryable flag, original error), any other \<open>Error\<close> with its message
  (a \<open>TypeError\<close> is one), or \<open>undefined\<close>: a thunk may reject with it, and the
  uninitialised \<open>lastError\<close> of \<open>withRetry\<close> holds it.
\<close>

datatype errorCode =
    YT_DLP_NOT_FOUND | VIDEO_NOT_FOUND | INVALID_URL | NETWORK_ERROR | PERMISSION_DENIED
  | FORMAT_NOT_AVAILABLE | SUBTITLES_NOT_AVAILABLE | CACHE_ERROR | UNKNOWN_ERROR

datatype jsError =
    YouTubeMCPError jsstring (code: errorCode) (retryable: bool)
      (originalError: "jsError option")
  | Error jsstring
  | Undefined

text \<open>
  \<open>error.message\<close>. Reading a property of \<open>undefined\<close> throws a \<open>TypeError\<close> (\<open>None\<close>);
  \<open>messageOfUndefined\<close> is that error, with the text that the engine of Node gives it.
\<close>

fun messageOf :: "jsError \<Rightarrow> jsstring option" where
  "messageOf (YouTubeMCPError m c r orig) = Some m"
| "messageOf (Error m) = Some m"
| "messageOf Undefined = None"

definition messageOfUndefined :: jsError where
  "messageOfUndefined =
     Error (lit ''Cannot read properties of undefined (reading '' @ [39] @ lit ''message'' @
            [39] @ lit '')'')"

definition createMCPError ::
    "jsstring \<Rightarrow> errorCode \<Rightarrow> bool \<Rightarrow> jsError option \<Rightarrow> jsError" where
  "createMCPError msg c r orig = YouTubeMCPError msg c r orig"

text \<open>\<open>error instanceof YouTubeMCPError\<close>\<close>

fun isYouTubeMCPError :: "jsError \<Rightarrow> bool" where
  "isYouTubeMCPError (YouTubeMCPError m c r orig) = True"
| "isYouTubeMCPError (Error m) = False"
| "isYouTubeMCPError Undefined = False"

text \<open>
  \<open>String.prototype.toLowerCase\<close>. The needles that \<open>handleYtDlpError\<close> looks for are
  ASCII, so what matters is which code units become ASCII letters: \<open>A\<close> to \<open>Z\<close>, the
  Kelvin sign U+212A (to \<open>k\<close>) and U+0130 (to \<open>i\<close> followed by U+0307). Every other code
  unit has a lower-case form outside ASCII and is left as it is.
\<close>

definition lowerUnit :: "nat \<Rightarrow> jsstring" where
  "lowerUnit c =
     (if 65 \<le> c \<and> c \<le> 90 then [c + 32]
      else if c = 8490 then [107]
      else if c = 304 then [105, 775]
      else [c])"

definition toLowerCase :: "jsstring \<Rightarrow> jsstring" where
  "toLowerCase s = concat (map lowerUnit s)"

text \<open>
  \<open>handleYtDlpError\<close> starts with \<open>error.message.toLowerCase()\<close>: on \<open>undefined\<close> it
  throws (\<open>Inl\<close>), on every other value it returns the classified failure (\<open>Inr\<close>).
\<close>

definition handleYtDlpError :: "jsError \<Rightarrow> jsstring \<Rightarrow> jsError + jsError" where
  "handleYtDlpError error url =
     (case messageOf error of
        None \<Rightarrow> Inl messageOfUndefined
      | Some message \<Rightarrow>
          (let errorMessage = toLowerCase message in
           if includesStr (lit ''video not found'') errorMessage \<or>
              includesStr (lit ''404'') errorMessage then
             Inr (createMCPError (lit ''Video not found or unavailable: '' @ url)
                    VIDEO_NOT_FOUND False (Some error))
           else if includesStr (lit ''sign in to confirm'') errorMessage \<or>
                   includesStr (lit ''age'') errorMessage then
             Inr (createMCPError (lit ''Video requires authentication or age verification'')
                    PERMISSION_DENIED False (Some error))
           else if includesStr (lit ''no subtitles'') errorMessage \<or>
                   includesStr (lit ''subtitles not available'') errorMessage then
             Inr (createMCPError (lit ''No subtitles available for this video'')
                    SUBTITLES_NOT_AVAILABLE False (Some error))
           else if includesStr (lit ''format not available'') errorMessage \<or>
                   includesStr (lit ''requested format'') errorMessage then
             Inr (createMCPError (lit ''Requested format not available for this video'')
                    FORMAT_NOT_AVAILABLE True (Some error))
           else if includesStr (lit ''network'') errorMessage \<or>
                   includesStr (lit ''connection'') errorMessage then
             Inr (createMCPError (lit ''Network error occurred while processing video'')
                    NETWORK_ERROR True (Some error))
           else
             Inr (createMCPError (lit ''Unexpected error: '' @ message)
                    UNKNOWN_ERROR True (Some error))))"

text \<open>The decimal digits of an integer, as the template literal \<open>${maxRetries}\<close> prints it.\<close>

function digitsOf :: "nat \<Rightarrow> jsstring" where
  "digitsOf n = (if n < 10 then [48 + n] else digitsOf (n div 10) @ [48 + n mod 10])"
  by pat_completeness auto
termination
  by (relation "measure (\<lambda>n. n)") auto

definition numToString :: "int \<Rightarrow> jsstring" where
  "numToString i = (if i < 0 then 45 # digitsOf (nat (- i)) else digitsOf (nat i))"

text \<open>
  The operation passed to \<open>withRetry\<close> is a thunk with effects: a function from the state
  of its environment to either the thrown value (\<open>Inl\<close>) or the returned one (\<open>Inr\<close>),
  and the state it leaves. A run of \<open>withRetry\<close> records, besides its own outcome, how
  often the thunk was invoked and the delays it waited for.
\<close>

type_synonym ('s, 'a) operation = "'s \<Rightarrow> (jsError + 'a) \<times> 's"

record ('s, 'a) retryRun =
  outcome :: "jsError + 'a"
  invocations :: nat
  waits :: "int list"
  finalState :: 's

text \<open>
  The \<open>for\<close> loop of \<open>withRetry\<close> from \<open>attempt\<close> on; \<open>n\<close> and \<open>ws\<close> are the invocations
  and waits so far. The attempt budget is an integer. After the last attempt the message
  of the wrapper is built from \<open>lastError.message\<close>; where the thunk rejected with
  \<open>undefined\<close>, reading it throws inside the \<open>catch\<close> block, and that \<open>TypeError\<close> is what
  \<open>withRetry\<close> throws.
\<close>

function withRetryLoop ::
    "('s, 'a) operation \<Rightarrow> int \<Rightarrow> int \<Rightarrow> int \<Rightarrow> jsError \<Rightarrow> 's \<Rightarrow> nat \<Rightarrow> int list
       \<Rightarrow> ('s, 'a) retryRun" where
  "withRetryLoop operation maxRetries delay attempt lastError s n ws =
     (if attempt \<le> maxRetries then
        (case operation s of
           (Inr v, s') \<Rightarrow>
             \<lparr>outcome = Inr v, invocations = Suc n, waits = ws, finalState = s'\<rparr>
         | (Inl error, s') \<Rightarrow>
             if isYouTubeMCPError error \<and> \<not> retryable error then
               \<lparr>outcome = Inl error, invocations = Suc n, waits = ws, finalState = s'\<rparr>
             else if attempt = maxRetries then
               (case messageOf error of
                  Some message \<Rightarrow>
                    \<lparr>outcome = Inl (createMCPError
                         (lit ''Operation failed after '' @ numToString maxRetries @
                          lit '' attempts: '' @ message)
                         UNKNOWN_ERROR False (Some error)),
                     invocations = Suc n, waits = ws, finalState = s'\<rparr>
                | None \<Rightarrow>
                    \<lparr>outcome = Inl messageOfUndefined,
                     invocations = Suc n, waits = ws, finalState = s'\<rparr>)
             else
               withRetryLoop operation maxRetries delay (attempt + 1) error s' (Suc n)
                 (ws @ [delay * attempt]))
      else \<lparr>outcome = Inl lastError, invocations = n, waits = ws, finalState = s\<rparr>)"
  by pat_completeness auto
termination
  by (relation "measure (\<lambda>(operation, maxRetries, delay, attempt, lastError, s, n, ws).
        nat (maxRetries + 1 - attempt))") auto

definition withRetry ::
    "('s, 'a) operation \<Rightarrow> int \<Rightarrow> int \<Rightarrow> 's \<Rightarrow> ('s, 'a) retryRun" where
  "withRetry operation maxRetries delay s =
     withRetryLoop operation maxRetries delay 1 Undefined s 0 []"

text \<open>The default arguments: \<open>maxRetries = 3\<close>, \<open>delay = 1000\<close>.\<close>

definition withRetryDefault :: "('s, 'a) operation \<Rightarrow> 's \<Rightarrow> ('s, 'a) retryRun" where
  "withRetryDefault operation s = withRetry operation 3 1000 s"

section \<open>Time ranges and the handlers that take them\<close>

text \<open>
  \<open>parseTimeToSeconds\<close> converts each part with \<open>Number\<close>, a built-in of JavaScript on
  floating-point numbers; the conversion and the number type are parameters here. Only the
  count of the parts decides whether the function throws.
\<close>

definition parseTimeToSeconds ::
    "(jsstring \<Rightarrow> 'n::{numeral,times}) \<Rightarrow> jsstring \<Rightarrow> jsError + 'n" where
  "parseTimeToSeconds toNumber timeStr =
     (let parts = map toNumber (split (of_char CHR '':'') timeStr) in
      if length parts = 2 then Inr (parts ! 0 * 60 + parts ! 1)
      else if length parts = 3 then Inr (parts ! 0 * 3600 + parts ! 1 * 60 + parts ! 2)
      else Inl (Error (lit ''Invalid time format: '' @ timeStr @
                       lit ''. Use MM:SS or HH:MM:SS'')))"

text \<open>
  What a handler makes of its run: a failure that it reports in its response
  (\<open>Error: <message>\<close>, \<open>isError\<close> set), a value thrown out of its \<open>catch\<close> block, or the
  value with which it goes on.
\<close>

datatype 'a response = Reported jsError | Thrown jsError | GoesOn 'a

text \<open>
  The \<open>catch\<close> block that closes every tool handler: a \<open>YouTubeMCPError\<close> is reported as
  it is, anything else is classified by \<open>handleYtDlpError\<close> first.
\<close>

definition handlerCatch :: "jsError \<Rightarrow> jsstring \<Rightarrow> 'a response" where
  "handlerCatch error url =
     (if isYouTubeMCPError error then Reported error
      else (case handleYtDlpError error url of
              Inl thrown \<Rightarrow> Thrown thrown
            | Inr mcpError \<Rightarrow> Reported mcpError))"

text \<open>
  A run of a handler: its response, how often the thunk of the version check and the thunk
  of the download were invoked, and the state of the environment it leaves.
\<close>

record ('s, 'a) handlerRun =
  response :: "'a response"
  versionChecks :: nat
  downloads :: nat
  endState :: 's

text \<open>
  An optional string argument is \<open>undefined\<close> (\<open>None\<close>) or a string; it counts as given
  when it is a string that is not empty.
\<close>

fun given :: "jsstring option \<Rightarrow> bool" where
  "given None = False"
| "given (Some t) = (t \<noteq> [])"

text \<open>
  The time range of \<open>handleDownloadSubtitles\<close> (the block under
  \<open>if (time_start || time_end)\<close>): the section to download, if there is one. The test
  \<open>endSeconds && startSeconds >= endSeconds\<close> is made on floating-point numbers: what
  counts as true (\<open>truthy\<close>) and the comparison (\<open>ge\<close>) are parameters.
\<close>

definition subtitlesTimeRange ::
    "(jsstring \<Rightarrow> 'n::{numeral,times,zero}) \<Rightarrow> ('n \<Rightarrow> bool) \<Rightarrow> ('n \<Rightarrow> 'n \<Rightarrow> bool) \<Rightarrow>
     jsstring option \<Rightarrow> jsstring option \<Rightarrow> jsError + ('n \<times> 'n option) option" where
  "subtitlesTimeRange toNumber truthy ge time_start time_end =
     (if given time_start \<or> given time_end then
        (case (if given time_start then parseTimeToSeconds toNumber (the time_start)
               else Inr 0) of
           Inl error \<Rightarrow> Inl error
         | Inr startSeconds \<Rightarrow>
             (case (if given time_end
                    then map_sum id Some (parseTimeToSeconds toNumber (the time_end))
                    else Inr None) of
                Inl error \<Rightarrow> Inl error
              | Inr endSeconds \<Rightarrow>
                  if (case endSeconds of None \<Rightarrow> False
                      | Some e \<Rightarrow> truthy e \<and> ge startSeconds e)
                  then Inl (YouTubeMCPError (lit ''Start time must be before end time'')
                              UNKNOWN_ERROR False None)
                  else Inr (Some (startSeconds, endSeconds))))
      else Inr None)"

text \<open>
  \<open>handleDownloadSubtitles\<close> from its start to the download of the subtitles, with its
  \<open>catch\<close> block: the time range is worked out first, then \<open>withRetry\<close> runs the thunk that
  spawns yt-dlp with the arguments made of it. What the handler does after a download that
  succeeded is not part of the model.
\<close>

definition handleDownloadSubtitles ::
    "(jsstring \<Rightarrow> 'n::{numeral,times,zero}) \<Rightarrow> ('n \<Rightarrow> bool) \<Rightarrow> ('n \<Rightarrow> 'n \<Rightarrow> bool) \<Rightarrow>
     jsstring \<Rightarrow> jsstring option \<Rightarrow> jsstring option \<Rightarrow>
     (('n \<times> 'n option) option \<Rightarrow> ('s, 'a) operation) \<Rightarrow> 's \<Rightarrow> ('s, 'a) handlerRun" where
  "handleDownloadSubtitles toNumber truthy ge url time_start time_end spawn s =
     (case subtitlesTimeRange toNumber truthy ge time_start time_end of
        Inl error \<Rightarrow>
          \<lparr>response = handlerCatch error url, versionChecks = 0, downloads = 0,
           endState = s\<rparr>
      | Inr sections \<Rightarrow>
          (let run = withRetry (spawn sections) 3 1000 s in
           \<lparr>response = (case outcome run of
                          Inl error \<Rightarrow> handlerCatch error url
                        | Inr result \<Rightarrow> GoesOn result),
            versionChecks = 0, downloads = invocations run, endState = finalState run\<rparr>))"



text \<open>
  Numbers for the examples: the integers and \<open>NaN\<close>, with the arithmetic and the tests of
  JavaScript on them. \<open>digitsNumber\<close> stands for \<open>Number\<close> on the strings of the
  examples: a string of decimal digits has its value, a string that starts with a letter
  other than \<open>I\<close> is not a number.
\<close>

datatype jsnum = NaN | Num int

instantiation jsnum :: "{zero, one, times, numeral}"
begin

definition zero_jsnum :: jsnum where
  "zero_jsnum = Num 0"

definition one_jsnum :: jsnum where
  "one_jsnum = Num 1"

fun plus_jsnum :: "jsnum \<Rightarrow> jsnum \<Rightarrow> jsnum" where
  "plus_jsnum (Num a) (Num b) = Num (a + b)"
| "plus_jsnum NaN y = NaN"
| "plus_jsnum (Num a) NaN = NaN"

fun times_jsnum :: "jsnum \<Rightarrow> jsnum \<Rightarrow> jsnum" where
  "times_jsnum (Num a) (Num b) = Num (a * b)"
| "times_jsnum NaN y = NaN"
| "times_jsnum (Num a) NaN = NaN"

instance
proof
  fix a b c :: jsnum
  show "a + b + c = a + (b + c)"
    by (cases a; cases b; cases c) simp_all
qed

end

fun truthyNum :: "jsnum \<Rightarrow> bool" where
  "truthyNum NaN = False"
| "truthyNum (Num a) = (a \<noteq> 0)"

fun geNum :: "jsnum \<Rightarrow> jsnum \<Rightarrow> bool" where
  "geNum (Num a) (Num b) = (a \<ge> b)"
| "geNum NaN y = False"
| "geNum (Num a) NaN = False"

definition decimalNumber :: "jsstring \<Rightarrow> int" where
  "decimalNumber s = foldl (\<lambda>n c. 10 * n + (int c - 48)) 0 s"

definition digitsNumber :: "jsstring \<Rightarrow> jsnum" where
  "digitsNumber s = (if s \<noteq> [] \<and> list_all isDigit s then Num (decimalNumber s) else NaN)"

section \<open>The file cache (SimpleCache)\<close>


record 'a cacheEntry =
  data :: 'a
  timestamp :: int
  expiresAt :: "int option"

datatype 'a fileContent = Entry "'a cacheEntry" | Corrupt

datatype fsCall = ReadFile | WriteFile | Unlink

record 'a directory =
  files :: "(jsstring \<times> 'a fileContent) list"
  refused :: "(fsCall \<times> jsstring) set"

definition nameMax :: nat where
  "nameMax = 255"

text \<open>\<open>fs.existsSync\<close> never throws: a name that cannot be looked up does not exist.\<close>

definition existsSync :: "'a directory \<Rightarrow> jsstring \<Rightarrow> bool" where
  "existsSync fs name = (length name \<le> nameMax \<and> map_of (files fs) name \<noteq> None)"


definition unlinkSync :: "jsstring \<Rightarrow> 'a directory \<Rightarrow> 'a directory option" where
  "unlinkSync name fs =
     (if length name > nameMax \<or> (Unlink, name) \<in> refused fs \<or>
         map_of (files fs) name = None then None
      else Some (fs\<lparr>files := filter (\<lambda>(n, content). n \<noteq> name) (files fs)\<rparr>))"




text \<open>\<open>key.replace(/[^a-zA-Z0-9_-]/g, '_')\<close> and the file name made of it.\<close>

definition safeUnit :: "nat \<Rightarrow> nat" where
  "safeUnit c =
     (if (97 \<le> c \<and> c \<le> 122) \<or> (65 \<le> c \<and> c \<le> 90) \<or> (48 \<le> c \<and> c \<le> 57) \<or>
         c = 95 \<or> c = 45
      then c else 95)"

definition getCacheFile :: "jsstring \<Rightarrow> jsstring" where
  "getCacheFile key = map safeUnit key @ lit ''.json''"



text \<open>
  The \<open>catch\<close> block of \<open>get\<close>: the file is removed if it exists and can be removed;
  a failure to remove it is ignored.
\<close>

definition removeQuietly :: "jsstring \<Rightarrow> 'a directory \<Rightarrow> 'a directory" where
  "removeQuietly cacheFile fs =
     (if existsSync fs cacheFile then
        (case unlinkSync cacheFile fs of Some fs' \<Rightarrow> fs' | None \<Rightarrow> fs)
      else fs)"




definition SimpleCache_delete :: "jsstring \<Rightarrow> 'a directory \<Rightarrow> 'a directory" where
  "SimpleCache_delete key fs = removeQuietly (getCacheFile key) fs"



section \<open>Notions used in the statements\<close>

text \<open>
  What \<open>withRetry\<close> treats as a failure worth another attempt: anything but a
  \<open>YouTubeMCPError\<close> whose flag \<open>retryable\<close> is false.
\<close>

definition retriable :: "jsError \<Rightarrow> bool" where
  "retriable e \<longleftrightarrow> \<not> (isYouTubeMCPError e \<and> \<not> retryable e)"



text \<open>
  The array that \<open>stripVttNonContent\<close> joins with line feeds (\<open>processedLines\<close> or
  \<open>uniqueLines\<close> of the source; no line where the source returns the empty string early).
\<close>

definition outputLines :: "jsstring \<Rightarrow> bool \<Rightarrow> jsstring list" where
  "outputLines vttContent preserveTiming =
     (if vttContent = [] \<or> trim vttContent = [] then []
      else
        (let lines = split nl vttContent in
         if length lines < 2 \<or> \<not> includesStr (lit ''WEBVTT'') (lines ! 0) then []
         else
           (let contentLines = drop (headerEndFrom lines 1) lines in
            if preserveTiming then processedLines contentLines
            else uniqueLines (textLines contentLines))))"

text \<open>The removal of tags from a content line, as both modes do it.\<close>

definition cleanTags :: "jsstring \<Rightarrow> jsstring" where
  "cleanTags line = replaceOpen (replaceTags line)"

text \<open>A line of the exact shape \<open>HH:MM:SS.mmm --> HH:MM:SS.mmm\<close>, and nothing else.\<close>

definition isTimingLine :: "jsstring \<Rightarrow> bool" where
  "isTimingLine e \<longleftrightarrow>
     matchAtoms (timestampPat @ chrs '' --> '' @ timestampPat) e = Some []"

text \<open>A line that contains the cue arrow or a positioning attribute.\<close>

definition hasMarkup :: "jsstring \<Rightarrow> bool" where
  "hasMarkup line \<longleftrightarrow>
     includesStr (lit ''-->'') line \<or> includesStr (lit ''align:'') line \<or>
     includesStr (lit ''position:'') line"

text \<open>
  A list of lines in which some blank line is immediately followed by a line that
  contains the cue arrow.
\<close>

fun hasCueStart :: "jsstring list \<Rightarrow> bool" where
  "hasCueStart (a # b # rest) =
     ((trim a = [] \<and> includesStr (lit ''-->'') b) \<or> hasCueStart (b # rest))"
| "hasCueStart [a] = False"
| "hasCueStart [] = False"

text \<open>
  The index of a blank line that is immediately followed by a line with the cue arrow: the
  condition under which the search for the end of the header stops.
\<close>

definition hitAt :: "jsstring list \<Rightarrow> nat \<Rightarrow> bool" where
  "hitAt lines j \<longleftrightarrow>
     trim (lines ! j) = [] \<and> j + 1 < length lines \<and> includesStr (lit ''-->'') (lines ! (j + 1))"


section \<open>The retry executor\<close>

declare withRetryLoop.simps [simp del]
declare headerEndFrom.simps [simp del]
declare digitsOf.simps [simp del]

lemma withRetryLoop_success:
  "attempt \<le> maxRetries \<Longrightarrow> operation s = (Inr v, s') \<Longrightarrow>
     withRetryLoop operation maxRetries delay attempt lastError s n ws =
       \<lparr>outcome = Inr v, invocations = Suc n, waits = ws, finalState = s'\<rparr>"
  by (subst withRetryLoop.simps) simp

lemma withRetryLoop_permanent:
  "attempt \<le> maxRetries \<Longrightarrow> operation s = (Inl e, s') \<Longrightarrow> \<not> retriable e \<Longrightarrow>
     withRetryLoop operation maxRetries delay attempt lastError s n ws =
       \<lparr>outcome = Inl e, invocations = Suc n, waits = ws, finalState = s'\<rparr>"
  by (subst withRetryLoop.simps) (simp add: retriable_def)

lemma withRetryLoop_again:
  "attempt < maxRetries \<Longrightarrow> operation s = (Inl e, s') \<Longrightarrow> retriable e \<Longrightarrow>
     withRetryLoop operation maxRetries delay attempt lastError s n ws =
       withRetryLoop operation maxRetries delay (attempt + 1) e s' (Suc n)
         (ws @ [delay * attempt])"
  by (subst withRetryLoop.simps) (auto simp add: retriable_def)

text \<open>
  C3. With the default budget of three attempts: an operation that fails twice with a
  failure worth retrying and then succeeds makes \<open>withRetry\<close> return the success value
  after exactly three invocations (and waits of 1000 and 2000 ms); an operation whose first
  failure is a \<open>YouTubeMCPError\<close> that is not retryable is invoked exactly once and that
  very failure is thrown.
\<close>

theorem withRetry_default_budget:
  "(operation s0 = (Inl e1, s1) \<and> retriable e1 \<and>
    operation s1 = (Inl e2, s2) \<and> retriable e2 \<and>
    operation s2 = (Inr v, s3) \<longrightarrow>
      withRetryDefault operation s0 =
        \<lparr>outcome = Inr v, invocations = 3, waits = [1000, 2000], finalState = s3\<rparr>) \<and>
   (operation s0 = (Inl e, s') \<and> isYouTubeMCPError e \<and> \<not> retryable e \<longrightarrow>
      withRetryDefault operation s0 =
        \<lparr>outcome = Inl e, invocations = 1, waits = [], finalState = s'\<rparr>)"
  by (simp add: withRetryDefault_def withRetry_def withRetryLoop_again withRetryLoop_success
      withRetryLoop_permanent retriable_def)

text \<open>
  A thunk that counts its invocations, fails with a plain error on the first two and
  returns 7 on the third; and one that fails at once because yt-dlp is missing.
\<close>

theorem withRetry_default_budget_witness:
  "withRetryDefault
     (\<lambda>k::nat. (if k < 2 then Inl (Error (lit ''reset'')) else Inr (7::nat), Suc k)) 0 =
     \<lparr>outcome = Inr 7, invocations = 3, waits = [1000, 2000], finalState = 3\<rparr> \<and>
   withRetryDefault
     (\<lambda>k::nat. (Inl (YouTubeMCPError (lit ''no yt-dlp'') YT_DLP_NOT_FOUND False None)
                  :: jsError + nat, Suc k)) 0 =
     \<lparr>outcome = Inl (YouTubeMCPError (lit ''no yt-dlp'') YT_DLP_NOT_FOUND False None),
      invocations = 1, waits = [], finalState = 1\<rparr>"
  using
    withRetry_default_budget
      [of "\<lambda>k::nat. (if k < 2 then Inl (Error (lit ''reset'')) else Inr (7::nat), Suc k)"
          0 "Error (lit ''reset'')" 1 "Error (lit ''reset'')" 2 7 3]
    withRetry_default_budget
      [of "\<lambda>k::nat. (Inl (YouTubeMCPError (lit ''no yt-dlp'') YT_DLP_NOT_FOUND False None)
                       :: jsError + nat, Suc k)"
          0 _ _ _ _ _ _ "YouTubeMCPError (lit ''no yt-dlp'') YT_DLP_NOT_FOUND False None" 1]
  by (simp add: retriable_def)














text \<open>
  C9. With an attempt budget of zero or less the loop body never runs: the operation is
  not invoked, nothing is waited for, and \<open>withRetry\<close> throws the \<open>lastError\<close> that was
  never assigned, the value \<open>undefined\<close>, which is no \<open>YouTubeMCPError\<close>.
\<close>

theorem withRetry_no_budget:
  "maxRetries \<le> 0 \<Longrightarrow>
     withRetry operation maxRetries delay s =
       \<lparr>outcome = Inl Undefined, invocations = 0, waits = [], finalState = s\<rparr> \<and>
     \<not> isYouTubeMCPError Undefined"
  by (simp add: withRetry_def withRetryLoop.simps)

theorem withRetry_no_budget_witness:
  "withRetry (\<lambda>k::nat. (Inr (7::nat), Suc k)) 0 1000 0 =
     \<lparr>outcome = Inl Undefined, invocations = 0, waits = [], finalState = 0\<rparr>"
  using withRetry_no_budget [of 0 "\<lambda>k::nat. (Inr (7::nat), Suc k)" 1000 0]
  by simp

section \<open>Strings: trimming, splitting and joining\<close>

lemma trim_empty_iff: "trim s = [] \<longleftrightarrow> (\<forall>c \<in> set s. isSpace c)"
proof
  assume "trim s = []"
  then have a: "\<forall>c \<in> set (dropWhile isSpace s). isSpace c"
    by (simp add: trim_def)
  have "dropWhile isSpace s = []"
  proof (rule ccontr)
    assume n: "dropWhile isSpace s \<noteq> []"
    then have "\<not> isSpace (hd (dropWhile isSpace s))" by (rule hd_dropWhile)
    moreover have "hd (dropWhile isSpace s) \<in> set (dropWhile isSpace s)" using n by simp
    ultimately show False using a by blast
  qed
  then show "\<forall>c \<in> set s. isSpace c" by simp
next
  assume "\<forall>c \<in> set s. isSpace c"
  then have d: "dropWhile isSpace s = []" by simp
  show "trim s = []" unfolding trim_def d by simp
qed

lemma split_not_Nil: "split sep s \<noteq> []"
  by (induction s) (auto split: list.splits)

lemma hd_split: "hd (split sep s) = takeWhile (\<lambda>c. c \<noteq> sep) s"
  by (induction s) (auto split: list.splits simp: split_not_Nil)

lemma split_no_sep: "l \<in> set (split sep s) \<Longrightarrow> sep \<notin> set l"
  by (induction s arbitrary: l) (auto split: list.splits if_splits)

lemma split_plain: "sep \<notin> set a \<Longrightarrow> split sep a = [a]"
  by (induction a) auto

lemma split_append: "sep \<notin> set a \<Longrightarrow> split sep (a @ sep # b) = a # split sep b"
  by (induction a) auto

lemma split_join_Cons:
  "\<forall>x \<in> set (y # L). sep \<notin> set x \<Longrightarrow> split sep (join [sep] (y # L)) = y # L"
  by (induction L arbitrary: y) (simp_all add: split_plain split_append)

lemma split_join:
  "L \<noteq> [] \<Longrightarrow> \<forall>x \<in> set L. sep \<notin> set x \<Longrightarrow> split sep (join [sep] L) = L"
  using split_join_Cons [of "hd L" "tl L" sep] by simp

section \<open>The caption normalizer: documents that are not cue documents\<close>

text \<open>
  C6. A document that is empty, consists of white space only, or whose first line (the
  text before the first line feed) does not contain \<open>WEBVTT\<close> is normalized to the empty
  string, in both modes. \<open>stripVttNonContent\<close> has no statement that throws: the model is
  a total function into strings, with no failure value.
\<close>

theorem stripVttNonContent_fallback:
  "vttContent = [] \<or> (\<forall>c \<in> set vttContent. isSpace c) \<or>
   \<not> includesStr (lit ''WEBVTT'') (takeWhile (\<lambda>c. c \<noteq> nl) vttContent) \<Longrightarrow>
   stripVttNonContent vttContent preserveTiming = []"
proof -
  have "split nl vttContent ! 0 = takeWhile (\<lambda>c. c \<noteq> nl) vttContent"
    using hd_split [of nl vttContent] split_not_Nil [of nl vttContent]
    by (simp add: hd_conv_nth)
  moreover assume "vttContent = [] \<or> (\<forall>c \<in> set vttContent. isSpace c) \<or>
   \<not> includesStr (lit ''WEBVTT'') (takeWhile (\<lambda>c. c \<noteq> nl) vttContent)"
  ultimately show ?thesis
    by (auto simp: stripVttNonContent_def trim_empty_iff Let_def)
qed

text \<open>The empty document, a blank one, and a SubRip document, in both modes.\<close>

theorem stripVttNonContent_fallback_witness:
  "stripVttNonContent [] True = [] \<and> stripVttNonContent [] False = [] \<and>
   stripVttNonContent (lit '' \<newline>  '') True = [] \<and>
   stripVttNonContent (lit '' \<newline>  '') False = [] \<and>
   stripVttNonContent (lit ''1\<newline>00:00:01.000 --> 00:00:02.000\<newline>Hello'') True = [] \<and>
   stripVttNonContent (lit ''1\<newline>00:00:01.000 --> 00:00:02.000\<newline>Hello'') False = []"
  using stripVttNonContent_fallback [of "[]" True] stripVttNonContent_fallback [of "[]" False]
    stripVttNonContent_fallback [of "lit '' \<newline>  ''" True]
    stripVttNonContent_fallback [of "lit '' \<newline>  ''" False]
    stripVttNonContent_fallback [of "lit ''1\<newline>00:00:01.000 --> 00:00:02.000\<newline>Hello''" True]
    stripVttNonContent_fallback [of "lit ''1\<newline>00:00:01.000 --> 00:00:02.000\<newline>Hello''" False]
  by (simp add: isSpace_def nl_def)

section \<open>The caption normalizer: the scenarios of the specification\<close>

text \<open>
  The document of the specification's two scenarios: three cues, the first two with the
  same text. The discard-timing mode suppresses the second \<open>Hello world\<close>, the
  preserve-timing mode keeps all three cues.
\<close>

lemma scenario_discard_timing:
  "stripVttNonContent (lit ''WEBVTT\<newline>Kind: captions\<newline>Language: en\<newline>\<newline>00:00:01.000 --> 00:00:02.000\<newline>Hello world\<newline>\<newline>00:00:02.000 --> 00:00:03.000\<newline>Hello world\<newline>\<newline>00:00:03.000 --> 00:00:04.000\<newline>Goodbye'') False =
     lit ''Hello world\<newline>Goodbye''"
  by (simp add: stripVttNonContent_def headerEndFrom.simps trim_def isSpace_def nl_def
      openTag_def closeTag_def timestampTag_def timestampPat_def Let_def)

lemma scenario_preserve_timing:
  "stripVttNonContent (lit ''WEBVTT\<newline>Kind: captions\<newline>Language: en\<newline>\<newline>00:00:01.000 --> 00:00:02.000\<newline>Hello world\<newline>\<newline>00:00:02.000 --> 00:00:03.000\<newline>Hello world\<newline>\<newline>00:00:03.000 --> 00:00:04.000\<newline>Goodbye'') True =
     lit ''00:00:01.000 --> 00:00:02.000\<newline>Hello world\<newline>00:00:02.000 --> 00:00:03.000\<newline>Hello world\<newline>00:00:03.000 --> 00:00:04.000\<newline>Goodbye''"
  by (simp add: stripVttNonContent_def headerEndFrom.simps trim_def isSpace_def isDigit_def
      nl_def timingAt_def openTag_def closeTag_def timestampTag_def timestampPat_def Let_def)

section \<open>The caption normalizer: where the emitted lines come from\<close>

lemma stripVttNonContent_join:
  "stripVttNonContent v p = join [nl] (outputLines v p)"
  by (simp add: stripVttNonContent_def outputLines_def Let_def)

lemma set_trim: "set (trim s) \<subseteq> set s"
proof -
  have "set (trim s) \<subseteq> set (dropWhile isSpace s)"
    unfolding trim_def using set_dropWhileD [of _ isSpace "rev (dropWhile isSpace s)"] by auto
  then show ?thesis using set_dropWhileD [of _ isSpace s] by blast
qed

lemma set_replaceTags: "set (replaceTags s) \<subseteq> set s"
proof (induction s rule: replaceTags.induct)
  case 1
  then show ?case by simp
next
  case (2 c cs)
  then show ?case by (auto simp: subset_iff dest: in_set_dropD)
qed

lemma set_replaceOpen: "set (replaceOpen s) \<subseteq> set s"
proof (induction s rule: replaceOpen.induct)
  case 1
  then show ?case by simp
next
  case (2 c cs)
  then show ?case by (auto simp: subset_iff dest: in_set_dropD)
qed

lemma set_cleanTags: "set (cleanTags s) \<subseteq> set s"
  unfolding cleanTags_def using set_replaceOpen [of "replaceTags s"] set_replaceTags [of s]
  by blast

lemma matchAtoms_suffix: "matchAtoms p s = Some r \<Longrightarrow> suffix r s"
proof (induction p s rule: matchAtoms.induct)
  case (2 p s)
  then have "suffix r (dropWhile isSpace s)" by simp
  then show ?case using suffix_dropWhile suffix_order.trans by blast
qed (auto split: if_splits intro: suffix_ConsI)

lemma matchAtoms_append:
  "matchAtoms (p @ q) s = (case matchAtoms p s of None \<Rightarrow> None | Some r \<Rightarrow> matchAtoms q r)"
  by (induction p s rule: matchAtoms.induct) auto

lemma matchAtoms_fixed:
  "Spaces \<notin> set p \<Longrightarrow> matchAtoms p s = Some r \<Longrightarrow>
     matchAtoms p (take (length p) s @ x) = Some x"
  by (induction p s rule: matchAtoms.induct) (auto split: if_splits)

lemma length_timestampPat: "length timestampPat = 12"
  by (simp add: timestampPat_def)

lemma Spaces_timestampPat: "Spaces \<notin> set timestampPat"
  by (simp add: timestampPat_def)

lemma timestampPat_take:
  "matchAtoms timestampPat s = Some r \<Longrightarrow> matchAtoms timestampPat (take 12 s @ x) = Some x"
  using matchAtoms_fixed [OF Spaces_timestampPat, of s r x] by (simp add: length_timestampPat)

lemma timingAt_shape:
  assumes "timingAt s = Some (a, b)"
  shows "isTimingLine (a @ lit '' --> '' @ b)" and "set a \<subseteq> set s" and "set b \<subseteq> set s"
proof -
  from assms obtain r1 r2 r3 where
    r1: "matchAtoms timestampPat s = Some r1" and
    r2: "matchAtoms ([Spaces] @ chrs ''-->'' @ [Spaces]) r1 = Some r2" and
    r3: "matchAtoms timestampPat r2 = Some r3" and
    ab: "a = take 12 s" "b = take 12 r2"
    by (auto simp: timingAt_def split: option.splits)
  have "matchAtoms timestampPat (b @ []) = Some []"
    using timestampPat_take [OF r3, of "[]"] ab by simp
  then have "matchAtoms (chrs '' --> '' @ timestampPat) (lit '' --> '' @ b) = Some []"
    by simp
  then show "isTimingLine (a @ lit '' --> '' @ b)"
    unfolding isTimingLine_def
    using timestampPat_take [OF r1, of "lit '' --> '' @ b"] ab
    by (subst matchAtoms_append) simp
  show "set a \<subseteq> set s" using ab set_take_subset by fast
  have "suffix r2 r1" "suffix r1 s"
    using matchAtoms_suffix r1 r2 by blast+
  then have "set r2 \<subseteq> set s" using set_mono_suffix by blast
  then show "set b \<subseteq> set s" using ab set_take_subset by fast
qed

lemma timingMatch_shape:
  "timingMatch s = Some (a, b) \<Longrightarrow>
     isTimingLine (a @ lit '' --> '' @ b) \<and> set a \<subseteq> set s \<and> set b \<subseteq> set s"
proof (induction s)
  case Nil
  then show ?case by simp
next
  case (Cons c cs)
  show ?case
  proof (cases "timingAt (c # cs)")
    case None
    with Cons show ?thesis by auto
  next
    case (Some m)
    with Cons.prems have "timingAt (c # cs) = Some (a, b)" by simp
    then show ?thesis using timingAt_shape by blast
  qed
qed


lemma includesStr_sublist: "includesStr n s \<longleftrightarrow> sublist n s"
  by (induction s) (auto simp: sublist_Cons_right)

lemma sublist_trim: "sublist (trim s) s"
proof -
  have "suffix (dropWhile isSpace (rev (dropWhile isSpace s))) (rev (dropWhile isSpace s))"
    by (rule suffix_dropWhile)
  then have "prefix (trim s) (dropWhile isSpace s)"
    by (simp add: trim_def suffix_to_prefix)
  moreover have "suffix (dropWhile isSpace s) s" by (rule suffix_dropWhile)
  ultimately show ?thesis
    using prefix_imp_sublist suffix_imp_sublist sublist_order.order.trans by blast
qed

lemma includesStr_trim: "includesStr n (trim s) \<Longrightarrow> includesStr n s"
  using sublist_trim [of s] sublist_order.order.trans by (auto simp: includesStr_sublist)

lemma hasMarkup_trim: "hasMarkup (trim s) \<Longrightarrow> hasMarkup s"
  using includesStr_trim by (auto simp: hasMarkup_def)

lemma processedLines_mem:
  "e \<in> set (processedLines ls) \<Longrightarrow>
     e \<noteq> [] \<and>
     (\<exists>l \<in> set ls.
        (includesStr (lit ''-->'') l \<and> isTimingLine e \<and> set e \<subseteq> set l \<union> set (lit '' --> '')) \<or>
        (\<not> hasMarkup l \<and> e = trim (cleanTags l)))"
proof (induction ls)
  case Nil
  then show ?case by simp
next
  case (Cons l ls)
  show ?case
  proof (cases "e \<in> set (processedLines ls)")
    case True
    with Cons.IH show ?thesis by auto
  next
    case False
    show ?thesis
    proof (cases "includesStr (lit ''-->'') l")
      case True
      with False Cons.prems obtain a b where
        m: "timingMatch l = Some (a, b)" and e: "e = a @ lit '' --> '' @ b"
        by (auto split: option.splits)
      from timingMatch_shape [OF m] e True show ?thesis by auto
    next
      case arrow: False
      with False Cons.prems have "e = trim (cleanTags l)" "e \<noteq> []" "\<not> hasMarkup l"
        by (auto simp: Let_def cleanTags_def hasMarkup_def split: if_splits)
      then show ?thesis by auto
    qed
  qed
qed

lemma textLines_mem:
  "e \<in> set (textLines ls) \<Longrightarrow>
     e \<noteq> [] \<and> (\<exists>l \<in> set ls. \<not> hasMarkup l \<and> e = trim (cleanTags l))"
  by (induction ls) (auto simp: Let_def cleanTags_def hasMarkup_def split: if_splits)

lemma uniqueAfter_remdups_adj: "uniqueAfter p xs = tl (remdups_adj (p # xs))"
proof (induction xs arbitrary: p)
  case Nil
  then show ?case by simp
next
  case (Cons x xs)
  have "x # tl (remdups_adj (x # xs)) = remdups_adj (x # xs)"
    using hd_remdups_adj [of "x # xs"] remdups_adj_Nil_iff [of "x # xs"]
    by (metis hd_Cons_tl list.sel(1) list.distinct(1))
  with Cons show ?case by simp
qed

lemma uniqueLines_remdups_adj: "uniqueLines xs = remdups_adj xs"
proof (cases xs)
  case Nil
  then show ?thesis by simp
next
  case (Cons x ys)
  have "x # tl (remdups_adj (x # ys)) = remdups_adj (x # ys)"
    using hd_remdups_adj [of "x # ys"] remdups_adj_Nil_iff [of "x # ys"]
    by (metis hd_Cons_tl list.sel(1) list.distinct(1))
  with Cons show ?thesis by (simp add: uniqueAfter_remdups_adj)
qed

lemma outputLines_source:
  "e \<in> set (outputLines v p) \<Longrightarrow>
     e \<noteq> [] \<and>
     (\<exists>l \<in> set (split nl v).
        (p \<and> includesStr (lit ''-->'') l \<and> isTimingLine e \<and>
         set e \<subseteq> set l \<union> set (lit '' --> '')) \<or>
        (\<not> hasMarkup l \<and> e = trim (cleanTags l)))"
proof -
  assume e: "e \<in> set (outputLines v p)"
  let ?c = "drop (headerEndFrom (split nl v) 1) (split nl v)"
  have sub: "set ?c \<subseteq> set (split nl v)" by (rule set_drop_subset)
  show ?thesis
  proof (cases p)
    case True
    with e have "e \<in> set (processedLines ?c)"
      by (auto simp: outputLines_def Let_def split: if_splits)
    from processedLines_mem [OF this] sub True show ?thesis by blast
  next
    case False
    with e have "e \<in> set (textLines ?c)"
      by (auto simp: outputLines_def Let_def uniqueLines_remdups_adj split: if_splits)
    from textLines_mem [OF this] sub show ?thesis by blast
  qed
qed

lemma outputLines_no_nl: "e \<in> set (outputLines v p) \<Longrightarrow> nl \<notin> set e"
proof -
  assume "e \<in> set (outputLines v p)"
  from outputLines_source [OF this] obtain l where
    l: "l \<in> set (split nl v)" and
    c: "set e \<subseteq> set l \<union> set (lit '' --> '') \<or> e = trim (cleanTags l)"
    by blast
  have "nl \<notin> set l" using l by (rule split_no_sep)
  moreover have "nl \<notin> set (lit '' --> '')" by (simp add: nl_def)
  moreover have "set (trim (cleanTags l)) \<subseteq> set l"
    using set_trim [of "cleanTags l"] set_cleanTags [of l] by blast
  ultimately show ?thesis using c by blast
qed

lemma split_stripVttNonContent:
  "split nl (stripVttNonContent v p) =
     (if outputLines v p = [] then [[]] else outputLines v p)"
  using split_join [of "outputLines v p" nl] outputLines_no_nl [of _ v p]
  by (auto simp: stripVttNonContent_join)

lemma outputLines_discard_distinct: "distinct_adj (outputLines v False)"
  by (simp add: outputLines_def Let_def uniqueLines_remdups_adj)

text \<open>
  C1, as the code has it. In the discard-timing mode no two adjacent lines of the output
  are equal, and every line of a non-empty output is the trimmed, tag-stripped form of a
  line of the document that contains none of \<open>-->\<close>, \<open>align:\<close> and \<open>position:\<close>. The
  test for these tokens is made on the line as it stands in the document, before the tags
  are removed: where the removal of tags changes nothing, the emitted line contains none
  of the three tokens either.
\<close>

theorem discard_timing_lines:
  "distinct_adj (split nl (stripVttNonContent v False)) \<and>
   (\<forall>e \<in> set (split nl (stripVttNonContent v False)). e \<noteq> [] \<longrightarrow>
      (\<exists>l \<in> set (split nl v).
         \<not> hasMarkup l \<and> e = trim (cleanTags l) \<and> (cleanTags l = l \<longrightarrow> \<not> hasMarkup e)))"
proof (intro conjI ballI impI)
  show "distinct_adj (split nl (stripVttNonContent v False))"
    using outputLines_discard_distinct [of v] by (simp add: split_stripVttNonContent)
next
  fix e assume "e \<in> set (split nl (stripVttNonContent v False))" and "e \<noteq> []"
  then have "e \<in> set (outputLines v False)"
    by (auto simp: split_stripVttNonContent split: if_splits)
  from outputLines_source [OF this] obtain l where
    l: "l \<in> set (split nl v)" "\<not> hasMarkup l" "e = trim (cleanTags l)"
    by auto
  then have "cleanTags l = l \<longrightarrow> \<not> hasMarkup e"
    using hasMarkup_trim [of l] by auto
  with l show "\<exists>l \<in> set (split nl v).
         \<not> hasMarkup l \<and> e = trim (cleanTags l) \<and> (cleanTags l = l \<longrightarrow> \<not> hasMarkup e)"
    by blast
qed

text \<open>A document with two cues of the same text.\<close>

theorem discard_timing_lines_witness:
  "lit ''Hello'' \<in> set (split nl (stripVttNonContent
      (lit ''WEBVTT\<newline>\<newline>00:00:01.000 --> 00:00:02.000\<newline>Hello\<newline>\<newline>00:00:02.000 --> 00:00:03.000\<newline>Hello'') False)) \<and>
   distinct_adj (split nl (stripVttNonContent
      (lit ''WEBVTT\<newline>\<newline>00:00:01.000 --> 00:00:02.000\<newline>Hello\<newline>\<newline>00:00:02.000 --> 00:00:03.000\<newline>Hello'') False)) \<and>
   (\<exists>l \<in> set (split nl
      (lit ''WEBVTT\<newline>\<newline>00:00:01.000 --> 00:00:02.000\<newline>Hello\<newline>\<newline>00:00:02.000 --> 00:00:03.000\<newline>Hello'')).
      \<not> hasMarkup l \<and> lit ''Hello'' = trim (cleanTags l) \<and>
      (cleanTags l = l \<longrightarrow> \<not> hasMarkup (lit ''Hello'')))"
proof -
  let ?doc = "lit ''WEBVTT\<newline>\<newline>00:00:01.000 --> 00:00:02.000\<newline>Hello\<newline>\<newline>00:00:02.000 --> 00:00:03.000\<newline>Hello''"
  have out: "stripVttNonContent ?doc False = lit ''Hello''"
    by (simp add: stripVttNonContent_def headerEndFrom.simps trim_def isSpace_def nl_def
        cleanTags_def openTag_def closeTag_def timestampTag_def timestampPat_def Let_def)
  have m: "lit ''Hello'' \<in> set (split nl (stripVttNonContent ?doc False))"
    unfolding out by (simp add: nl_def)
  have n: "lit ''Hello'' \<noteq> []" by simp
  from discard_timing_lines [of ?doc] m n show ?thesis by blast
qed

text \<open>
  C1, as the claim states it, fails: the line \<open>-<c>->\<close> of a document that starts with
  \<open>WEBVTT\<close> contains no cue arrow, and the removal of \<open><c>\<close> turns it into one.
\<close>

theorem discard_timing_counterexample:
  "includesStr (lit ''WEBVTT'') (hd (split nl (lit ''WEBVTT\<newline>-<c>->''))) \<and>
   stripVttNonContent (lit ''WEBVTT\<newline>-<c>->'') False = lit ''-->'' \<and>
   includesStr (lit ''-->'') (stripVttNonContent (lit ''WEBVTT\<newline>-<c>->'') False)"
  by (simp add: stripVttNonContent_def headerEndFrom.simps trim_def isSpace_def nl_def
      openTag_def closeTag_def timestampTag_def timestampPat_def Let_def)

lemma processedLines_append:
  "processedLines (xs @ ys) = processedLines xs @ processedLines ys"
  by (induction xs) (auto simp: Let_def split: option.splits)

text \<open>
  C2, as the claim states it, fails: the content line \<open>-<c>->\<close> is emitted as \<open>-->\<close>,
  a line that contains the cue arrow and is not of the shape of a timing line.
\<close>

theorem preserve_timing_counterexample:
  "stripVttNonContent (lit ''WEBVTT\<newline>-<c>->'') True = lit ''-->'' \<and>
   includesStr (lit ''-->'') (stripVttNonContent (lit ''WEBVTT\<newline>-<c>->'') True) \<and>
   \<not> isTimingLine (stripVttNonContent (lit ''WEBVTT\<newline>-<c>->'') True)"
  by (simp add: stripVttNonContent_def headerEndFrom.simps trim_def isSpace_def isDigit_def
      nl_def isTimingLine_def openTag_def closeTag_def timestampTag_def timestampPat_def Let_def)

section \<open>The caption normalizer: the header\<close>

lemma hasCueStart_drop:
  "Suc i < length lines \<Longrightarrow>
     hasCueStart (drop i lines) \<longleftrightarrow>
       (trim (lines ! i) = [] \<and> includesStr (lit ''-->'') (lines ! Suc i)) \<or>
       hasCueStart (drop (Suc i) lines)"
proof -
  assume a: "Suc i < length lines"
  then have "drop i lines = lines ! i # lines ! Suc i # drop (Suc (Suc i)) lines"
    by (simp add: Cons_nth_drop_Suc Suc_lessD)
  moreover have "drop (Suc i) lines = lines ! Suc i # drop (Suc (Suc i)) lines"
    using a by (simp add: Cons_nth_drop_Suc)
  ultimately show ?thesis by simp
qed

lemma headerEndFrom_default:
  "\<not> hasCueStart (drop i lines) \<Longrightarrow> headerEndFrom lines i = 1"
proof (induction lines i rule: headerEndFrom.induct)
  case (1 lines i)
  show ?case
  proof (cases "Suc i < length lines")
    case True
    with 1 hasCueStart_drop [OF True] show ?thesis
      by (subst headerEndFrom.simps) auto
  next
    case False
    show ?thesis
    proof (cases "i < length lines")
      case True
      with False have "headerEndFrom lines (i + 1) = 1"
        by (subst headerEndFrom.simps) simp
      with True False show ?thesis by (subst headerEndFrom.simps) simp
    next
      case False
      then show ?thesis by (subst headerEndFrom.simps) simp
    qed
  qed
qed

lemma hasCueStart_tl: "\<not> hasCueStart lines \<Longrightarrow> \<not> hasCueStart (tl lines)"
  by (induction lines rule: hasCueStart.induct) auto

lemma trim_cleanTags_blank: "trim l = [] \<Longrightarrow> trim (cleanTags l) = []"
  using set_cleanTags [of l] by (auto simp: trim_empty_iff)

lemma textLines_complete:
  "l \<in> set ls \<Longrightarrow> \<not> hasMarkup l \<Longrightarrow> trim (cleanTags l) \<noteq> [] \<Longrightarrow>
     trim (cleanTags l) \<in> set (textLines ls)"
proof (induction ls)
  case Nil
  then show ?case by simp
next
  case (Cons x xs)
  from Cons.prems have "trim l \<noteq> []" using trim_cleanTags_blank by blast
  with Cons show ?case
    by (auto simp: Let_def hasMarkup_def cleanTags_def)
qed

lemma processedLines_complete:
  "l \<in> set ls \<Longrightarrow> \<not> hasMarkup l \<Longrightarrow> trim (cleanTags l) \<noteq> [] \<Longrightarrow>
     trim (cleanTags l) \<in> set (processedLines ls)"
proof (induction ls)
  case Nil
  then show ?case by simp
next
  case (Cons x xs)
  from Cons.prems have "trim l \<noteq> []" using trim_cleanTags_blank by blast
  with Cons show ?case
    by (auto simp: Let_def hasMarkup_def cleanTags_def split: option.splits)
qed

lemma includesStr_set: "includesStr n s \<Longrightarrow> set n \<subseteq> set s"
  by (simp add: includesStr_sublist set_mono_sublist)

text \<open>
  C10. In a document whose first line contains \<open>WEBVTT\<close> and in which no blank line is
  immediately followed by a line containing the cue arrow, the search for the end of the
  header leaves \<open>headerEndIndex\<close> at 1: only the first line is skipped. Every later line
  that contains none of \<open>-->\<close>, \<open>align:\<close> and \<open>position:\<close> and is not blank after the
  removal of tags is a content line, and its cleaned text is a line of the output in both
  modes; so are header lines such as \<open>Kind: captions\<close> and \<open>Language: en\<close>.
\<close>

theorem header_lines_kept:
  assumes "includesStr (lit ''WEBVTT'') (hd (split nl v))"
    and "\<not> hasCueStart (split nl v)"
  shows "headerEndFrom (split nl v) 1 = 1 \<and>
    (\<forall>l \<in> set (tl (split nl v)). \<not> hasMarkup l \<and> trim (cleanTags l) \<noteq> [] \<longrightarrow>
       trim (cleanTags l) \<in> set (split nl (stripVttNonContent v True)) \<and>
       trim (cleanTags l) \<in> set (split nl (stripVttNonContent v False)))"
proof (intro conjI ballI impI)
  let ?lines = "split nl v"
  have d1: "drop 1 ?lines = tl ?lines" by (simp add: drop_Suc)
  show h: "headerEndFrom ?lines 1 = 1"
    using headerEndFrom_default [of 1 ?lines] hasCueStart_tl [OF assms(2)] d1 by simp
  fix l assume l: "l \<in> set (tl ?lines)" and c: "\<not> hasMarkup l \<and> trim (cleanTags l) \<noteq> []"
  have "87 \<in> set (lit ''WEBVTT'')" by simp
  then have "87 \<in> set (hd ?lines)" using includesStr_set [OF assms(1)] by blast
  then have "87 \<in> set v" using set_takeWhileD by (fastforce simp: hd_split)
  moreover have "\<not> isSpace 87" by (simp add: isSpace_def)
  ultimately have t: "trim v \<noteq> []" "v \<noteq> []" by (auto simp: trim_empty_iff)
  from l have len: "\<not> length ?lines < 2" by (cases ?lines) auto
  have w: "includesStr (lit ''WEBVTT'') (?lines ! 0)"
    using assms(1) split_not_Nil [of nl v] by (simp add: hd_conv_nth)
  have oT: "outputLines v True = processedLines (tl ?lines)"
    using t len w h d1 by (simp add: outputLines_def Let_def)
  have oF: "outputLines v False = uniqueLines (textLines (tl ?lines))"
    using t len w h d1 by (simp add: outputLines_def Let_def)
  have "trim (cleanTags l) \<in> set (outputLines v True)"
    unfolding oT using processedLines_complete l c by blast
  then show "trim (cleanTags l) \<in> set (split nl (stripVttNonContent v True))"
    by (auto simp: split_stripVttNonContent)
  have "trim (cleanTags l) \<in> set (outputLines v False)"
    unfolding oF using textLines_complete l c by (simp add: uniqueLines_remdups_adj)
  then show "trim (cleanTags l) \<in> set (split nl (stripVttNonContent v False))"
    by (auto simp: split_stripVttNonContent)
qed

theorem header_lines_kept_witness:
  "headerEndFrom (split nl (lit ''WEBVTT\<newline>Kind: captions\<newline>Language: en\<newline>Hello'')) 1 = 1 \<and>
   lit ''Kind: captions'' \<in> set (split nl (stripVttNonContent
      (lit ''WEBVTT\<newline>Kind: captions\<newline>Language: en\<newline>Hello'') True)) \<and>
   lit ''Kind: captions'' \<in> set (split nl (stripVttNonContent
      (lit ''WEBVTT\<newline>Kind: captions\<newline>Language: en\<newline>Hello'') False)) \<and>
   lit ''Language: en'' \<in> set (split nl (stripVttNonContent
      (lit ''WEBVTT\<newline>Kind: captions\<newline>Language: en\<newline>Hello'') True)) \<and>
   lit ''Language: en'' \<in> set (split nl (stripVttNonContent
      (lit ''WEBVTT\<newline>Kind: captions\<newline>Language: en\<newline>Hello'') False))"
proof -
  let ?doc = "lit ''WEBVTT\<newline>Kind: captions\<newline>Language: en\<newline>Hello''"
  have lines: "split nl ?doc =
      [lit ''WEBVTT'', lit ''Kind: captions'', lit ''Language: en'', lit ''Hello'']"
    by (simp add: nl_def)
  have a1: "includesStr (lit ''WEBVTT'') (hd (split nl ?doc))"
    unfolding lines by simp
  have a2: "\<not> hasCueStart (split nl ?doc)"
    unfolding lines by (simp add: trim_def isSpace_def)
  have k: "\<not> hasMarkup (lit ''Kind: captions'') \<and>
           trim (cleanTags (lit ''Kind: captions'')) = lit ''Kind: captions''"
    by (simp add: hasMarkup_def cleanTags_def trim_def isSpace_def openTag_def closeTag_def
        timestampTag_def timestampPat_def)
  have g: "\<not> hasMarkup (lit ''Language: en'') \<and>
           trim (cleanTags (lit ''Language: en'')) = lit ''Language: en''"
    by (simp add: hasMarkup_def cleanTags_def trim_def isSpace_def openTag_def closeTag_def
        timestampTag_def timestampPat_def)
  have mk: "lit ''Kind: captions'' \<in> set (tl (split nl ?doc))"
    and mg: "lit ''Language: en'' \<in> set (tl (split nl ?doc))"
    unfolding lines by simp_all
  have nk: "lit ''Kind: captions'' \<noteq> []" and ng: "lit ''Language: en'' \<noteq> []"
    by simp_all
  from header_lines_kept [OF a1 a2] k g mk mg nk ng show ?thesis by metis
qed

section \<open>The caption normalizer: normalizing twice\<close>

lemma trim_ends:
  assumes "trim s \<noteq> []"
  shows "\<not> isSpace (hd (trim s))" and "\<not> isSpace (last (trim s))"
proof -
  let ?d = "dropWhile isSpace s"
  let ?r = "dropWhile isSpace (rev ?d)"
  have t: "trim s = rev ?r" by (simp add: trim_def)
  with assms have r: "?r \<noteq> []" by simp
  have d: "?d \<noteq> []"
  proof
    assume "?d = []"
    then have "?r = []" by (simp only: rev.simps dropWhile.simps)
    with r show False by contradiction
  qed
  have "last (trim s) = hd ?r" using r by (simp add: t last_rev)
  then show "\<not> isSpace (last (trim s))" using hd_dropWhile [OF r] by simp
  have "suffix ?r (rev ?d)" by (rule suffix_dropWhile)
  then obtain zs where "rev ?d = zs @ ?r" by (auto simp: suffix_def)
  then have "last (rev ?d) = last ?r" using r by (metis last_appendR)
  then have "hd (trim s) = hd ?d" using r d by (simp add: t hd_rev last_rev)
  then show "\<not> isSpace (hd (trim s))" using hd_dropWhile [OF d] by simp
qed

lemma trim_fixed: "s \<noteq> [] \<Longrightarrow> \<not> isSpace (hd s) \<Longrightarrow> \<not> isSpace (last s) \<Longrightarrow> trim s = s"
proof -
  assume a: "s \<noteq> []" "\<not> isSpace (hd s)" "\<not> isSpace (last s)"
  then have "dropWhile isSpace s = s" by (cases s) auto
  moreover have "dropWhile isSpace (rev s) = rev s"
    using a by (cases "rev s") (auto simp: hd_rev)
  ultimately show ?thesis by (simp add: trim_def)
qed

lemma trim_idem: "trim (trim s) = trim s"
proof (cases "trim s = []")
  case True
  have "trim [] = []" by (simp add: trim_def)
  with True show ?thesis by simp
next
  case False
  then show ?thesis using trim_ends [OF False] by (simp add: trim_fixed)
qed

lemma textLines_fixed:
  "\<forall>e \<in> set L. e \<noteq> [] \<and> trim e = e \<and> \<not> hasMarkup e \<and> cleanTags e = e \<Longrightarrow>
     textLines L = L"
  by (induction L) (auto simp: Let_def hasMarkup_def cleanTags_def)

lemma no_blank_no_cue_start: "\<forall>e \<in> set L. trim e \<noteq> [] \<Longrightarrow> \<not> hasCueStart L"
  by (induction L rule: hasCueStart.induct) auto

lemma outputLines_trimmed: "e \<in> set (outputLines v False) \<Longrightarrow> e \<noteq> [] \<and> trim e = e"
  using outputLines_source [of e v False] by (auto simp: trim_idem)

text \<open>
  C7, as the code has it. Let the output of the discard-timing mode be such that none of
  its lines contains \<open>-->\<close>, \<open>align:\<close> or \<open>position:\<close> and the removal of tags changes
  none of them. Then normalizing the output again, behind a first line \<open>WEBVTT\<close>, in the
  discard-timing mode gives exactly the output.
\<close>

theorem discard_timing_idempotent:
  assumes "\<forall>e \<in> set (split nl (stripVttNonContent v False)). \<not> hasMarkup e \<and> cleanTags e = e"
  shows "stripVttNonContent (lit ''WEBVTT\<newline>'' @ stripVttNonContent v False) False =
         stripVttNonContent v False"
proof (cases "outputLines v False = []")
  case True
  then have "stripVttNonContent v False = []" by (simp add: stripVttNonContent_join)
  moreover have "stripVttNonContent (lit ''WEBVTT\<newline>'') False = []"
    by (simp add: stripVttNonContent_def headerEndFrom.simps trim_def isSpace_def nl_def Let_def)
  ultimately show ?thesis by simp
next
  case False
  let ?L = "outputLines v False"
  let ?out = "stripVttNonContent v False"
  let ?v2 = "lit ''WEBVTT\<newline>'' @ ?out"
  have sp: "split nl ?out = ?L" using False by (simp add: split_stripVttNonContent)
  have v2: "?v2 = lit ''WEBVTT'' @ nl # ?out" by (simp add: nl_def)
  have "nl \<notin> set (lit ''WEBVTT'')" by (simp add: nl_def)
  then have lines: "split nl ?v2 = lit ''WEBVTT'' # ?L"
    unfolding v2 using sp by (simp add: split_append)
  have "\<not> isSpace 87" by (simp add: isSpace_def)
  moreover have "87 \<in> set ?v2" by simp
  ultimately have ne: "?v2 \<noteq> []" "trim ?v2 \<noteq> []" by (auto simp: trim_empty_iff)
  have len: "\<not> length (lit ''WEBVTT'' # ?L) < 2" using False by (cases ?L) auto
  have w: "includesStr (lit ''WEBVTT'') ((lit ''WEBVTT'' # ?L) ! 0)" by simp
  have fixed: "\<forall>e \<in> set ?L. e \<noteq> [] \<and> trim e = e \<and> \<not> hasMarkup e \<and> cleanTags e = e"
    using assms outputLines_trimmed [of _ v] unfolding sp by blast
  then have "\<not> hasCueStart ?L" using no_blank_no_cue_start [of ?L] by auto
  then have h: "headerEndFrom (lit ''WEBVTT'' # ?L) 1 = 1"
    using headerEndFrom_default [of 1 "lit ''WEBVTT'' # ?L"] by simp
  have u: "uniqueLines ?L = ?L"
    using outputLines_discard_distinct [of v]
    by (simp add: uniqueLines_remdups_adj distinct_adj_altdef)
  have o: "outputLines ?v2 False = ?L"
    using ne len w h textLines_fixed [OF fixed] u
    by (simp add: outputLines_def [of ?v2] lines Let_def del: list.map)
  have "stripVttNonContent ?v2 False = join [nl] (outputLines ?v2 False)"
    by (rule stripVttNonContent_join)
  also have "\<dots> = join [nl] ?L" by (simp only: o)
  also have "\<dots> = ?out" by (rule stripVttNonContent_join [symmetric])
  finally show ?thesis .
qed

text \<open>Three cues, the first two with the same text.\<close>

theorem discard_timing_idempotent_witness:
  "stripVttNonContent (lit ''WEBVTT\<newline>\<newline>00:00:01.000 --> 00:00:02.000\<newline>Hello\<newline>\<newline>00:00:02.000 --> 00:00:03.000\<newline>Hello\<newline>\<newline>00:00:03.000 --> 00:00:04.000\<newline>Bye'') False =
     lit ''Hello\<newline>Bye'' \<and>
   stripVttNonContent (lit ''WEBVTT\<newline>'' @
     stripVttNonContent (lit ''WEBVTT\<newline>\<newline>00:00:01.000 --> 00:00:02.000\<newline>Hello\<newline>\<newline>00:00:02.000 --> 00:00:03.000\<newline>Hello\<newline>\<newline>00:00:03.000 --> 00:00:04.000\<newline>Bye'') False) False =
     stripVttNonContent (lit ''WEBVTT\<newline>\<newline>00:00:01.000 --> 00:00:02.000\<newline>Hello\<newline>\<newline>00:00:02.000 --> 00:00:03.000\<newline>Hello\<newline>\<newline>00:00:03.000 --> 00:00:04.000\<newline>Bye'') False"
proof -
  let ?doc = "lit ''WEBVTT\<newline>\<newline>00:00:01.000 --> 00:00:02.000\<newline>Hello\<newline>\<newline>00:00:02.000 --> 00:00:03.000\<newline>Hello\<newline>\<newline>00:00:03.000 --> 00:00:04.000\<newline>Bye''"
  have out: "stripVttNonContent ?doc False = lit ''Hello\<newline>Bye''"
    by (simp add: stripVttNonContent_def headerEndFrom.simps trim_def isSpace_def nl_def
        openTag_def closeTag_def timestampTag_def timestampPat_def Let_def)
  have "\<forall>e \<in> set (split nl (stripVttNonContent ?doc False)). \<not> hasMarkup e \<and> cleanTags e = e"
    unfolding out
    by (simp add: nl_def hasMarkup_def cleanTags_def openTag_def closeTag_def timestampTag_def
        timestampPat_def)
  from discard_timing_idempotent [OF this] out show ?thesis by simp
qed

text \<open>
  C7, as the claim states it, fails: \<open><<c>c>Hi\<close> is normalized to \<open><c>Hi\<close>, and that, in
  a document of its own, to \<open>Hi\<close>.
\<close>

theorem discard_timing_idempotent_counterexample:
  "stripVttNonContent (lit ''WEBVTT\<newline><<c>c>Hi'') False = lit ''<c>Hi'' \<and>
   stripVttNonContent (lit ''WEBVTT\<newline>'' @
     stripVttNonContent (lit ''WEBVTT\<newline><<c>c>Hi'') False) False = lit ''Hi'' \<and>
   stripVttNonContent (lit ''WEBVTT\<newline>'' @
     stripVttNonContent (lit ''WEBVTT\<newline><<c>c>Hi'') False) False \<noteq>
   stripVttNonContent (lit ''WEBVTT\<newline><<c>c>Hi'') False"
proof -
  have out: "stripVttNonContent (lit ''WEBVTT\<newline><<c>c>Hi'') False = lit ''<c>Hi''"
    by (simp add: stripVttNonContent_def headerEndFrom.simps trim_def isSpace_def nl_def
        openTag_def closeTag_def timestampTag_def timestampPat_def Let_def)
  have again: "stripVttNonContent (lit ''WEBVTT\<newline>'' @ lit ''<c>Hi'') False = lit ''Hi''"
    by (simp add: stripVttNonContent_def headerEndFrom.simps trim_def isSpace_def nl_def
        openTag_def closeTag_def timestampTag_def timestampPat_def Let_def)
  show ?thesis unfolding out again by simp
qed

section \<open>The file cache\<close>







section \<open>Malformed time ranges\<close>

lemma numeral_jsnum: "(numeral k :: jsnum) = Num (numeral k)"
proof (induction k rule: num.induct)
  case One
  show ?case by (simp add: one_jsnum_def)
next
  case (Bit0 k)
  have "(numeral (num.Bit0 k) :: jsnum) = numeral k + numeral k" by (rule numeral_Bit0)
  also have "\<dots> = Num (numeral k + numeral k)" by (simp add: Bit0)
  also have "numeral k + numeral k = (numeral (num.Bit0 k) :: int)"
    by (rule numeral_Bit0 [symmetric])
  finally show ?case .
next
  case (Bit1 k)
  have "(numeral (num.Bit1 k) :: jsnum) = numeral k + numeral k + 1" by (rule numeral_Bit1)
  also have "\<dots> = Num (numeral k + numeral k + 1)" by (simp add: Bit1 one_jsnum_def)
  also have "numeral k + numeral k + 1 = (numeral (num.Bit1 k) :: int)"
    by (rule numeral_Bit1 [symmetric])
  finally show ?case .
qed










text \<open>
  For comparison: with a well-formed range the download is attempted, and a range that
  ends before it starts is refused by a failure that is classified where it is thrown.
\<close>

lemma time_range_download_runs:
  "handleDownloadSubtitles digitsNumber truthyNum geNum (lit ''https://youtu.be/x'')
     (Some (lit ''0:30'')) (Some (lit ''1:00'')) (\<lambda>sections k::nat. (Inr sections, Suc k)) 0 =
     \<lparr>response = GoesOn (Some (Num 30, Some (Num 60))),
      versionChecks = 0, downloads = 1, endState = 1\<rparr> \<and>
   handleDownloadSubtitles digitsNumber truthyNum geNum (lit ''https://youtu.be/x'')
     (Some (lit ''1:00'')) (Some (lit ''0:30'')) (\<lambda>sections k::nat. (Inr sections, Suc k)) 0 =
     \<lparr>response = Reported (YouTubeMCPError (lit ''Start time must be before end time'')
        UNKNOWN_ERROR False None),
      versionChecks = 0, downloads = 0, endState = 0\<rparr>"
  by (simp add: handleDownloadSubtitles_def subtitlesTimeRange_def parseTimeToSeconds_def
      digitsNumber_def decimalNumber_def isDigit_def numeral_jsnum withRetry_def
      withRetryLoop.simps handlerCatch_def Let_def)

section \<open>The caption normalizer: timing lines\<close>

lemma processedLines_source:
  "e \<in> set (processedLines ls) \<Longrightarrow>
     (\<exists>l \<in> set ls. includesStr (lit ''-->'') l \<and>
        (\<exists>t1 t2. timingMatch l = Some (t1, t2) \<and> e = t1 @ lit '' --> '' @ t2)) \<or>
     (\<exists>l \<in> set ls. \<not> hasMarkup l \<and> e = trim (cleanTags l))"
proof (induction ls)
  case Nil
  then show ?case by simp
next
  case (Cons l ls)
  show ?case
  proof (cases "e \<in> set (processedLines ls)")
    case True
    with Cons.IH show ?thesis by auto
  next
    case False
    show ?thesis
    proof (cases "includesStr (lit ''-->'') l")
      case True
      with False Cons.prems obtain a b where
        "timingMatch l = Some (a, b)" "e = a @ lit '' --> '' @ b"
        by (auto split: option.splits)
      with True show ?thesis by auto
    next
      case arrow: False
      with False Cons.prems have "e = trim (cleanTags l)" "\<not> hasMarkup l"
        by (auto simp: Let_def cleanTags_def hasMarkup_def split: if_splits)
      then show ?thesis by auto
    qed
  qed
qed

lemma arrow_not_blank: "includesStr (lit ''-->'') l \<Longrightarrow> trim l \<noteq> []"
proof -
  assume "includesStr (lit ''-->'') l"
  then have "set (lit ''-->'') \<subseteq> set l" by (rule includesStr_set)
  then have "45 \<in> set l" by simp
  moreover have "\<not> isSpace 45" by (simp add: isSpace_def)
  ultimately show ?thesis by (auto simp: trim_empty_iff)
qed

lemma headerEndFrom_cong:
  "length xs = length ys \<Longrightarrow>
   \<forall>j < length xs. (trim (xs ! j) = [] \<longleftrightarrow> trim (ys ! j) = []) \<and>
      (includesStr (lit ''-->'') (xs ! j) \<longleftrightarrow> includesStr (lit ''-->'') (ys ! j)) \<Longrightarrow>
   headerEndFrom xs i = headerEndFrom ys i"
proof (induction xs i rule: headerEndFrom.induct)
  case (1 lines i)
  show ?case
  proof (cases "i < length lines")
    case False
    with 1 show ?thesis
      by (simp add: headerEndFrom.simps [of lines i] headerEndFrom.simps [of ys i])
  next
    case True
    let ?hit = "\<lambda>zs. trim (zs ! i) = [] \<and> i + 1 < length zs \<and>
        includesStr (lit ''-->'') (zs ! (i + 1))"
    have blank: "trim (lines ! i) = [] \<longleftrightarrow> trim (ys ! i) = []"
      using 1(3) True by blast
    have arrow: "i + 1 < length lines \<Longrightarrow>
        includesStr (lit ''-->'') (lines ! (i + 1)) \<longleftrightarrow> includesStr (lit ''-->'') (ys ! (i + 1))"
      using 1(3) by blast
    have same: "?hit lines \<longleftrightarrow> ?hit ys"
      using blank arrow 1(2) by auto
    show ?thesis
    proof (cases "?hit lines")
      case found: True
      then have "headerEndFrom lines i = i + 1"
        using True by (subst headerEndFrom.simps) simp
      moreover have "headerEndFrom ys i = i + 1"
        using found same True 1(2) by (subst headerEndFrom.simps) simp
      ultimately show ?thesis by simp
    next
      case notfound: False
      have "headerEndFrom lines (i + 1) = headerEndFrom ys (i + 1)"
        using 1(1) [OF True notfound 1(2,3)] .
      moreover have "headerEndFrom lines i = headerEndFrom lines (i + 1)"
        using True notfound by (subst headerEndFrom.simps) auto
      moreover have "headerEndFrom ys i = headerEndFrom ys (i + 1)"
        using True notfound same 1(2) by (subst headerEndFrom.simps) auto
      ultimately show ?thesis by simp
    qed
  qed
qed

lemma processedLines_update:
  "j < length M \<Longrightarrow> includesStr (lit ''-->'') (M ! j) \<Longrightarrow> timingMatch (M ! j) = None \<Longrightarrow>
   includesStr (lit ''-->'') l' \<Longrightarrow> timingMatch l' = None \<Longrightarrow>
   processedLines (M[j := l']) = processedLines M"
proof -
  assume a: "j < length M" "includesStr (lit ''-->'') (M ! j)" "timingMatch (M ! j) = None"
    "includesStr (lit ''-->'') l'" "timingMatch l' = None"
  have "M = take j M @ M ! j # drop (Suc j) M" using a(1) by (rule id_take_nth_drop)
  then have "processedLines M = processedLines (take j M) @ processedLines (drop (Suc j) M)"
    using a(2,3) processedLines_append [of "take j M" "M ! j # drop (Suc j) M"] by simp
  moreover have "M[j := l'] = take j M @ l' # drop (Suc j) M"
    using a(1) by (rule upd_conv_take_nth_drop)
  then have "processedLines (M[j := l']) =
      processedLines (take j M) @ processedLines (drop (Suc j) M)"
    using a(4,5) processedLines_append [of "take j M" "l' # drop (Suc j) M"] by simp
  ultimately show ?thesis by simp
qed

lemma split_subset: "l \<in> set (split sep v) \<Longrightarrow> set l \<subseteq> set v"
proof (induction v arbitrary: l)
  case Nil
  then show ?case by simp
next
  case (Cons c cs)
  show ?case
  proof (cases "c = sep")
    case True
    with Cons show ?thesis by auto
  next
    case False
    obtain x xs where sp: "split sep cs = x # xs"
      using split_not_Nil [of sep cs] by (cases "split sep cs") auto
    with Cons.prems False have "l = c # x \<or> l \<in> set xs" by simp
    moreover have "set x \<subseteq> set cs" using Cons.IH [of x] sp by simp
    moreover have "l \<in> set xs \<Longrightarrow> set l \<subseteq> set cs" using Cons.IH [of l] sp by simp
    ultimately show ?thesis by auto
  qed
qed

lemma join_superset: "l \<in> set L \<Longrightarrow> set l \<subseteq> set (join sep L)"
  by (induction sep L rule: join.induct) auto


lemma malformed_replaced:
  assumes i: "0 < i" "i < length (split nl v)"
    and l: "includesStr (lit ''-->'') (split nl v ! i)" "timingMatch (split nl v ! i) = None"
    and l': "includesStr (lit ''-->'') l'" "timingMatch l' = None" "nl \<notin> set l'"
  shows "outputLines (join [nl] ((split nl v)[i := l'])) True = outputLines v True"
proof -
  let ?L = "split nl v"
  let ?L' = "?L[i := l']"
  let ?v' = "join [nl] ?L'"
  have ne: "?L' \<noteq> []" using i by auto
  have "\<forall>x \<in> set ?L'. nl \<notin> set x"
    using split_no_sep [of _ nl v] l'(3) set_update_subset_insert [of ?L i l'] by blast
  then have sp: "split nl ?v' = ?L'" using ne by (simp add: split_join)
  have "\<not> isSpace 45" by (simp add: isSpace_def)
  have "45 \<in> set (lit ''-->'')" by simp
  then have m: "45 \<in> set (?L ! i)" "45 \<in> set l'"
    using includesStr_set [OF l(1)] includesStr_set [OF l'(1)] by blast+
  have "?L ! i \<in> set ?L" using i by simp
  then have "45 \<in> set v" using m(1) split_subset by blast
  then have v: "v \<noteq> []" "trim v \<noteq> []"
    using \<open>\<not> isSpace 45\<close> by (auto simp: trim_empty_iff)
  have "l' \<in> set ?L'" using i by (simp add: set_update_memI)
  then have "45 \<in> set ?v'" using m(2) join_superset by blast
  then have v': "?v' \<noteq> []" "trim ?v' \<noteq> []"
    using \<open>\<not> isSpace 45\<close> by (auto simp: trim_empty_iff)
  have len: "length ?L' = length ?L" by simp
  have first: "?L' ! 0 = ?L ! 0" using i by simp
  have "\<forall>j < length ?L. (trim (?L ! j) = [] \<longleftrightarrow> trim (?L' ! j) = []) \<and>
      (includesStr (lit ''-->'') (?L ! j) \<longleftrightarrow> includesStr (lit ''-->'') (?L' ! j))"
  proof (intro allI impI)
    fix j assume "j < length ?L"
    show "(trim (?L ! j) = [] \<longleftrightarrow> trim (?L' ! j) = []) \<and>
      (includesStr (lit ''-->'') (?L ! j) \<longleftrightarrow> includesStr (lit ''-->'') (?L' ! j))"
    proof (cases "j = i")
      case True
      then show ?thesis
        using i l(1) l'(1) arrow_not_blank [OF l(1)] arrow_not_blank [OF l'(1)] by simp
    next
      case False
      then show ?thesis by simp
    qed
  qed
  then have h: "headerEndFrom ?L 1 = headerEndFrom ?L' 1"
    using headerEndFrom_cong [of ?L ?L' 1] by simp
  let ?h = "headerEndFrom ?L 1"
  have p: "processedLines (drop ?h ?L') = processedLines (drop ?h ?L)"
  proof (cases "i < ?h")
    case True
    then show ?thesis by simp
  next
    case False
    then have le: "?h \<le> i" by simp
    have d: "drop ?h ?L' = (drop ?h ?L)[i - ?h := l']" using le by (rule drop_update_swap)
    have j: "i - ?h < length (drop ?h ?L)" using i le by simp
    have n: "drop ?h ?L ! (i - ?h) = ?L ! i" using i le by simp
    show ?thesis
      unfolding d using processedLines_update [OF j _ _ l'(1,2)] l n by simp
  qed
  have "outputLines ?v' True =
      (if length ?L' < 2 \<or> \<not> includesStr (lit ''WEBVTT'') (?L' ! 0) then []
       else processedLines (drop (headerEndFrom ?L' 1) ?L'))"
    using v' by (simp add: outputLines_def [of ?v'] sp Let_def del: list.map)
  also have "\<dots> =
      (if length ?L < 2 \<or> \<not> includesStr (lit ''WEBVTT'') (?L ! 0) then []
       else processedLines (drop ?h ?L))"
    using p by (simp only: len first h [symmetric])
  also have "\<dots> = outputLines v True"
    using v by (simp add: outputLines_def [of v] Let_def del: list.map)
  finally show ?thesis .
qed

lemma headerEndFrom_hit:
  "k \<le> m \<Longrightarrow> m < length L \<Longrightarrow> hitAt L m \<Longrightarrow> \<forall>j. k \<le> j \<and> j < m \<longrightarrow> \<not> hitAt L j \<Longrightarrow>
     headerEndFrom L k = m + 1"
proof (induction L k rule: headerEndFrom.induct)
  case (1 lines i)
  show ?case
  proof (cases "i = m")
    case True
    with 1(3,4) show ?thesis
      by (subst headerEndFrom.simps) (simp add: hitAt_def)
  next
    case False
    with 1(2) have lt: "i < m" by simp
    with 1(5) have no: "\<not> hitAt lines i" by simp
    have i: "i < length lines" using lt 1(3) by simp
    have "headerEndFrom lines (i + 1) = m + 1"
      using 1(1) [OF i] no lt 1(3,4,5) by (simp add: hitAt_def)
    then show ?thesis
      using i no by (subst headerEndFrom.simps) (auto simp: hitAt_def)
  qed
qed

lemma headerEndFrom_none:
  "\<forall>j. k \<le> j \<longrightarrow> \<not> hitAt L j \<Longrightarrow> headerEndFrom L k = 1"
proof (induction L k rule: headerEndFrom.induct)
  case (1 lines i)
  show ?case
  proof (cases "i < length lines")
    case False
    then show ?thesis by (subst headerEndFrom.simps) simp
  next
    case True
    have no: "\<not> hitAt lines i" using 1(2) by simp
    have "headerEndFrom lines (i + 1) = 1"
      using 1(1) [OF True] no 1(2) by (simp add: hitAt_def)
    then show ?thesis
      using True no by (subst headerEndFrom.simps) (auto simp: hitAt_def)
  qed
qed

lemma headerEndFrom_cases:
  "(\<exists>m. k \<le> m \<and> m < length L \<and> hitAt L m \<and> (\<forall>j. k \<le> j \<and> j < m \<longrightarrow> \<not> hitAt L j) \<and>
        headerEndFrom L k = m + 1) \<or>
   ((\<forall>j. k \<le> j \<longrightarrow> \<not> hitAt L j) \<and> headerEndFrom L k = 1)"
proof (cases "\<exists>m. k \<le> m \<and> hitAt L m")
  case False
  then have "\<forall>j. k \<le> j \<longrightarrow> \<not> hitAt L j" by blast
  then show ?thesis using headerEndFrom_none by blast
next
  case True
  define m where "m = (LEAST m. k \<le> m \<and> hitAt L m)"
  have m: "k \<le> m \<and> hitAt L m" unfolding m_def using True by (rule LeastI_ex)
  have least: "\<forall>j. k \<le> j \<and> j < m \<longrightarrow> \<not> hitAt L j"
    unfolding m_def using not_less_Least by blast
  have len: "m < length L" using m by (simp add: hitAt_def)
  show ?thesis using headerEndFrom_hit [of k m L] m least len by blast
qed

lemma malformed_removed:
  assumes i: "i < length (split nl v)" "headerEndFrom (split nl v) 1 < i"
    and l: "includesStr (lit ''-->'') (split nl v ! i)" "timingMatch (split nl v ! i) = None"
  shows "outputLines (join [nl] (take i (split nl v) @ drop (Suc i) (split nl v))) True =
         outputLines v True"
proof -
  let ?L = "split nl v"
  let ?R = "take i ?L @ drop (Suc i) ?L"
  let ?w = "join [nl] ?R"
  let ?h = "headerEndFrom ?L 1"
  have h1: "1 \<le> ?h" using headerEndFrom_cases [of 1 ?L] by auto
  have i2: "2 \<le> i" using h1 i(2) by simp
  have ne: "?R \<noteq> []" using i i2 by auto
  have "set ?R \<subseteq> set ?L" using set_take_subset set_drop_subset by fastforce
  then have "\<forall>x \<in> set ?R. nl \<notin> set x" using split_no_sep [of _ nl v] by blast
  then have sp: "split nl ?w = ?R" using ne by (simp add: split_join)
  have low: "?R ! j = ?L ! j" if "j < i" for j
    using that i by (simp add: nth_append)
  have high: "?R ! j = ?L ! Suc j" if "i \<le> j" "Suc j < length ?L" for j
    using that i by (simp add: nth_append min_def)
  have lenR: "length ?R = length ?L - 1" using i by simp
  have hitlow: "hitAt ?R j \<longleftrightarrow> hitAt ?L j" if "Suc j < i" for j
    using that i low [of j] low [of "Suc j"] lenR by (auto simp: hitAt_def)
  have hR: "headerEndFrom ?R 1 = ?h"
  proof -
    from headerEndFrom_cases [of 1 ?L]
    consider (hit) m where "1 \<le> m" "m < length ?L" "hitAt ?L m"
        "\<forall>j. 1 \<le> j \<and> j < m \<longrightarrow> \<not> hitAt ?L j" "?h = m + 1"
      | (none) "\<forall>j. 1 \<le> j \<longrightarrow> \<not> hitAt ?L j" "?h = 1"
      by blast
    then show ?thesis
    proof cases
      case hit
      then have mi: "Suc m < i" using i(2) by simp
      have "hitAt ?R m" using hit(3) hitlow [OF mi] by simp
      moreover have "\<forall>j. 1 \<le> j \<and> j < m \<longrightarrow> \<not> hitAt ?R j"
        using hit(4) hitlow mi by auto
      moreover have "m < length ?R" using mi i lenR by simp
      ultimately have "headerEndFrom ?R 1 = m + 1"
        using headerEndFrom_hit [of 1 m ?R] hit(1) by blast
      with hit(5) show ?thesis by simp
    next
      case none
      have "\<not> hitAt ?R j" if "1 \<le> j" for j
      proof (cases "Suc j < i")
        case True
        then show ?thesis using hitlow none(1) that by simp
      next
        case False
        show ?thesis
        proof (cases "Suc j = i")
          case True
          then have j: "j < i" by simp
          have "\<not> hitAt ?L j" using none(1) that by simp
          then have "trim (?L ! j) \<noteq> []"
            using True i(1) l(1) by (auto simp: hitAt_def)
          then show ?thesis using low [OF j] by (simp add: hitAt_def)
        next
          case far: False
          with False have ge: "i \<le> j" by simp
          have "\<not> hitAt ?L (Suc j)" using none(1) by simp
          then show ?thesis
            using ge high [of j] high [of "Suc j"] lenR i(1) by (auto simp: hitAt_def)
        qed
      qed
      then have "headerEndFrom ?R 1 = 1" using headerEndFrom_none [of 1 ?R] by blast
      with none(2) show ?thesis by simp
    qed
  qed
  have dL: "drop ?h ?L = take (i - ?h) (drop ?h ?L) @ ?L ! i # drop (Suc i) ?L"
  proof -
    have "i - ?h < length (drop ?h ?L)" using i by simp
    from id_take_nth_drop [OF this] show ?thesis using i by (simp add: less_imp_le_nat)
  qed
  have dR: "drop ?h ?R = take (i - ?h) (drop ?h ?L) @ drop (Suc i) ?L"
    using i by (simp add: drop_take less_imp_le_nat min_def)
  have mid: "processedLines (?L ! i # drop (Suc i) ?L) = processedLines (drop (Suc i) ?L)"
    using l by simp
  have "processedLines (drop ?h ?L) =
      processedLines (take (i - ?h) (drop ?h ?L)) @
      processedLines (?L ! i # drop (Suc i) ?L)"
    using dL processedLines_append [of "take (i - ?h) (drop ?h ?L)" "?L ! i # drop (Suc i) ?L"]
    by simp
  moreover have "processedLines (drop ?h ?R) =
      processedLines (take (i - ?h) (drop ?h ?L)) @ processedLines (drop (Suc i) ?L)"
    unfolding dR by (rule processedLines_append)
  ultimately have p: "processedLines (drop ?h ?R) = processedLines (drop ?h ?L)"
    using mid by simp
  have "\<not> isSpace 87" by (simp add: isSpace_def)
  show ?thesis
  proof (cases "includesStr (lit ''WEBVTT'') (?L ! 0)")
    case False
    have "?R ! 0 = ?L ! 0" using low [of 0] i2 by simp
    with False show ?thesis by (simp add: outputLines_def sp Let_def del: list.map)
  next
    case True
    have first: "?R ! 0 = ?L ! 0" using low [of 0] i2 by simp
    have "87 \<in> set (lit ''WEBVTT'')" by simp
    then have w: "87 \<in> set (?L ! 0)" using includesStr_set [OF True] by blast
    have "0 < length ?L" using split_not_Nil [of nl v] by simp
    then have "?L ! 0 \<in> set ?L" by (rule nth_mem)
    then have "87 \<in> set v" using w split_subset by blast
    then have v: "v \<noteq> []" "trim v \<noteq> []"
      using \<open>\<not> isSpace 87\<close> by (auto simp: trim_empty_iff)
    have "0 < length ?R" unfolding lenR using i(1) i2 by arith
    then have "?R ! 0 \<in> set ?R" by (rule nth_mem)
    then have "87 \<in> set ?w" using w first join_superset by fastforce
    then have w': "?w \<noteq> []" "trim ?w \<noteq> []"
      using \<open>\<not> isSpace 87\<close> by (auto simp: trim_empty_iff)
    have l2: "\<not> length ?L < 2" "\<not> length ?R < 2" using i i2 lenR by simp_all
    have "outputLines ?w True = processedLines (drop (headerEndFrom ?R 1) ?R)"
      using w' l2 True first by (simp add: outputLines_def [of ?w] sp Let_def del: list.map)
    also have "\<dots> = processedLines (drop ?h ?L)" using p by (simp only: hR)
    also have "\<dots> = outputLines v True"
      using v l2 True by (simp add: outputLines_def [of v] Let_def del: list.map)
    finally show ?thesis .
  qed
qed

text \<open>
  C2, as the code has it. In the preserve-timing mode every line of a non-empty output is
  either a line of the exact shape \<open>HH:MM:SS.mmm --> HH:MM:SS.mmm\<close>, made of the two time
  stamps of a line of the document that contains the cue arrow and that the timing
  expression matches, or the trimmed, tag-stripped form of a line of the document that
  contains none of \<open>-->\<close>, \<open>align:\<close> and \<open>position:\<close>; such a content line contains no cue
  arrow where the removal of tags changes nothing. A line with the cue arrow that the
  timing expression does not match is dropped entirely, with no text of it emitted: the
  output stays the same when the line (any line but the first) is replaced by another
  such line, the bare arrow for one; and when the line lies behind the first line after
  the header, the output is that of the document without the line.
\<close>

theorem preserve_timing_lines:
  "(\<forall>e \<in> set (split nl (stripVttNonContent v True)). e \<noteq> [] \<longrightarrow>
      (isTimingLine e \<and>
       (\<exists>l \<in> set (split nl v). includesStr (lit ''-->'') l \<and>
          (\<exists>t1 t2. timingMatch l = Some (t1, t2) \<and> e = t1 @ lit '' --> '' @ t2))) \<or>
      (\<exists>l \<in> set (split nl v). \<not> hasMarkup l \<and> e = trim (cleanTags l) \<and>
         (cleanTags l = l \<longrightarrow> \<not> includesStr (lit ''-->'') e))) \<and>
   (0 < i \<and> i < length (split nl v) \<and>
    includesStr (lit ''-->'') (split nl v ! i) \<and> timingMatch (split nl v ! i) = None \<and>
    includesStr (lit ''-->'') l' \<and> timingMatch l' = None \<and> nl \<notin> set l' \<longrightarrow>
      stripVttNonContent (join [nl] ((split nl v)[i := l'])) True =
        stripVttNonContent v True) \<and>
   (k < length (split nl v) \<and> headerEndFrom (split nl v) 1 < k \<and>
    includesStr (lit ''-->'') (split nl v ! k) \<and> timingMatch (split nl v ! k) = None \<longrightarrow>
      stripVttNonContent (join [nl] (take k (split nl v) @ drop (Suc k) (split nl v))) True =
        stripVttNonContent v True)"
proof (intro conjI ballI impI)
  fix e assume "e \<in> set (split nl (stripVttNonContent v True))" and "e \<noteq> []"
  then have o: "e \<in> set (outputLines v True)"
    by (auto simp: split_stripVttNonContent split: if_splits)
  then have "e \<in> set (processedLines (drop (headerEndFrom (split nl v) 1) (split nl v)))"
    by (auto simp: outputLines_def Let_def split: if_splits)
  from processedLines_source [OF this]
  consider (timing) l t1 t2 where
      "l \<in> set (split nl v)" "includesStr (lit ''-->'') l"
      "timingMatch l = Some (t1, t2)" "e = t1 @ lit '' --> '' @ t2"
    | (content) l where "l \<in> set (split nl v)" "\<not> hasMarkup l" "e = trim (cleanTags l)"
    using in_set_dropD by fast
  then show "(isTimingLine e \<and>
       (\<exists>l \<in> set (split nl v). includesStr (lit ''-->'') l \<and>
          (\<exists>t1 t2. timingMatch l = Some (t1, t2) \<and> e = t1 @ lit '' --> '' @ t2))) \<or>
      (\<exists>l \<in> set (split nl v). \<not> hasMarkup l \<and> e = trim (cleanTags l) \<and>
         (cleanTags l = l \<longrightarrow> \<not> includesStr (lit ''-->'') e))"
  proof cases
    case timing
    then have "isTimingLine e" using timingMatch_shape by blast
    with timing show ?thesis by blast
  next
    case content
    then have "cleanTags l = l \<longrightarrow> \<not> includesStr (lit ''-->'') e"
      using includesStr_trim [of "lit ''-->''" l] by (auto simp: hasMarkup_def)
    with content show ?thesis by blast
  qed
next
  assume a: "0 < i \<and> i < length (split nl v) \<and>
    includesStr (lit ''-->'') (split nl v ! i) \<and> timingMatch (split nl v ! i) = None \<and>
    includesStr (lit ''-->'') l' \<and> timingMatch l' = None \<and> nl \<notin> set l'"
  then have "outputLines (join [nl] ((split nl v)[i := l'])) True = outputLines v True"
    by (intro malformed_replaced) simp_all
  then show "stripVttNonContent (join [nl] ((split nl v)[i := l'])) True =
      stripVttNonContent v True"
    by (simp only: stripVttNonContent_join)
next
  assume "k < length (split nl v) \<and> headerEndFrom (split nl v) 1 < k \<and>
    includesStr (lit ''-->'') (split nl v ! k) \<and> timingMatch (split nl v ! k) = None"
  then have "outputLines (join [nl] (take k (split nl v) @ drop (Suc k) (split nl v))) True =
      outputLines v True"
    by (intro malformed_removed) simp_all
  then show "stripVttNonContent (join [nl] (take k (split nl v) @ drop (Suc k) (split nl v)))
      True = stripVttNonContent v True"
    by (simp only: stripVttNonContent_join)
qed

text \<open>
  A cue whose timing line is matched (and carries a positioning attribute), and one whose
  timing line is malformed: the malformed line replaced by the bare arrow, and left out.
\<close>

theorem preserve_timing_lines_witness:
  "stripVttNonContent (lit ''WEBVTT\<newline>\<newline>00:00:01.000  -->  00:00:02.000 align:start\<newline>Hi\<newline>\<newline>0:02 --> 0:03\<newline>Yo'') True =
     lit ''00:00:01.000 --> 00:00:02.000\<newline>Hi\<newline>Yo'' \<and>
   ((isTimingLine (lit ''00:00:01.000 --> 00:00:02.000'') \<and>
     (\<exists>l \<in> set (split nl (lit ''WEBVTT\<newline>\<newline>00:00:01.000  -->  00:00:02.000 align:start\<newline>Hi\<newline>\<newline>0:02 --> 0:03\<newline>Yo'')).
        includesStr (lit ''-->'') l \<and>
        (\<exists>t1 t2. timingMatch l = Some (t1, t2) \<and>
           lit ''00:00:01.000 --> 00:00:02.000'' = t1 @ lit '' --> '' @ t2))) \<or>
    (\<exists>l \<in> set (split nl (lit ''WEBVTT\<newline>\<newline>00:00:01.000  -->  00:00:02.000 align:start\<newline>Hi\<newline>\<newline>0:02 --> 0:03\<newline>Yo'')).
       \<not> hasMarkup l \<and> lit ''00:00:01.000 --> 00:00:02.000'' = trim (cleanTags l) \<and>
       (cleanTags l = l \<longrightarrow>
          \<not> includesStr (lit ''-->'') (lit ''00:00:01.000 --> 00:00:02.000''))))  \<and>
   stripVttNonContent (lit ''WEBVTT\<newline>\<newline>00:00:01.000  -->  00:00:02.000 align:start\<newline>Hi\<newline>\<newline>-->\<newline>Yo'') True =
     stripVttNonContent (lit ''WEBVTT\<newline>\<newline>00:00:01.000  -->  00:00:02.000 align:start\<newline>Hi\<newline>\<newline>0:02 --> 0:03\<newline>Yo'') True \<and>
   stripVttNonContent (lit ''WEBVTT\<newline>\<newline>00:00:01.000  -->  00:00:02.000 align:start\<newline>Hi\<newline>\<newline>Yo'') True =
     stripVttNonContent (lit ''WEBVTT\<newline>\<newline>00:00:01.000  -->  00:00:02.000 align:start\<newline>Hi\<newline>\<newline>0:02 --> 0:03\<newline>Yo'') True"
proof -
  let ?doc = "lit ''WEBVTT\<newline>\<newline>00:00:01.000  -->  00:00:02.000 align:start\<newline>Hi\<newline>\<newline>0:02 --> 0:03\<newline>Yo''"
  have lines: "split nl ?doc =
      [lit ''WEBVTT'', [], lit ''00:00:01.000  -->  00:00:02.000 align:start'', lit ''Hi'', [],
       lit ''0:02 --> 0:03'', lit ''Yo'']"
    by (simp add: nl_def)
  have out: "stripVttNonContent ?doc True = lit ''00:00:01.000 --> 00:00:02.000\<newline>Hi\<newline>Yo''"
    by (simp add: stripVttNonContent_def headerEndFrom.simps trim_def isSpace_def isDigit_def
        nl_def timingAt_def openTag_def closeTag_def timestampTag_def timestampPat_def Let_def)
  have m: "lit ''00:00:01.000 --> 00:00:02.000'' \<in> set (split nl (stripVttNonContent ?doc True))"
    unfolding out by (simp add: nl_def)
  have n: "lit ''00:00:01.000 --> 00:00:02.000'' \<noteq> []" by simp
  have hyp2: "0 < (5::nat) \<and> 5 < length (split nl ?doc) \<and>
      includesStr (lit ''-->'') (split nl ?doc ! 5) \<and> timingMatch (split nl ?doc ! 5) = None \<and>
      includesStr (lit ''-->'') (lit ''-->'') \<and> timingMatch (lit ''-->'') = None \<and>
      nl \<notin> set (lit ''-->'')"
    unfolding lines by (simp add: timingAt_def isDigit_def timestampPat_def nl_def)
  have hyp3: "5 < length (split nl ?doc) \<and> headerEndFrom (split nl ?doc) 1 < 5 \<and>
      includesStr (lit ''-->'') (split nl ?doc ! 5) \<and> timingMatch (split nl ?doc ! 5) = None"
    unfolding lines
    by (simp add: headerEndFrom.simps trim_def isSpace_def timingAt_def isDigit_def
        timestampPat_def)
  have upd: "join [nl] ((split nl ?doc)[5 := lit ''-->'']) =
      lit ''WEBVTT\<newline>\<newline>00:00:01.000  -->  00:00:02.000 align:start\<newline>Hi\<newline>\<newline>-->\<newline>Yo''"
    unfolding lines by (simp add: nl_def)
  have rem: "join [nl] (take 5 (split nl ?doc) @ drop (Suc 5) (split nl ?doc)) =
      lit ''WEBVTT\<newline>\<newline>00:00:01.000  -->  00:00:02.000 align:start\<newline>Hi\<newline>\<newline>Yo''"
    unfolding lines by (simp add: nl_def)
  note t = preserve_timing_lines [of ?doc 5 "lit ''-->''" 5]
  note t1 = t [THEN conjunct1, rule_format, OF m n]
  note t2 = t [THEN conjunct2, THEN conjunct1, rule_format, OF hyp2]
  note t3 = t [THEN conjunct2, THEN conjunct2, rule_format, OF hyp3]
  show ?thesis
    using out t1 t2 [unfolded upd] t3 [unfolded rem] by (intro conjI)
qed

end
